theory Spec2Isabelle
  imports Main "HOL-Library.Signed_Division" "HOL-Library.Multiset"
begin

section \<open>Shamir secret recovery: the exact-arithmetic variant (abc.js)\<close>

text \<open>
  The development embeds the BigInt functions of \<^verbatim>\<open>src/abc.js\<close>
  (\<^verbatim>\<open>parseValueBigInt\<close>, \<^verbatim>\<open>modInverse\<close>,
  \<^verbatim>\<open>lagrangeInterpolateBigInt\<close>, \<^verbatim>\<open>recoverSecret\<close>; the same text is in
  \<^verbatim>\<open>src/unnamed/part_000\<close>). JavaScript BigInt values are \<^typ>\<open>int\<close>; BigInt
  division and remainder truncate towards zero (\<open>sdiv\<close>, \<open>smod\<close>) and throw a
  RangeError on a zero divisor. Every \<^verbatim>\<open>throw\<close> is a value \<open>Inl e\<close>.
\<close>

subsection \<open>Errors and BigInt arithmetic\<close>

datatype error =
    InvalidDigit char int   \<comment> \<open>\<^verbatim>\<open>Error("Invalid digit '<char>' for base <base>")\<close>\<close>
  | DivisionByZero          \<comment> \<open>\<^verbatim>\<open>RangeError: Division by zero\<close>\<close>
  | TypeError               \<comment> \<open>\<^verbatim>\<open>TypeError: Cannot mix BigInt and other types\<close>\<close>

definition bind_err :: "error + 'a \<Rightarrow> ('a \<Rightarrow> error + 'b) \<Rightarrow> error + 'b" where
  "bind_err r f = (case r of Inl e \<Rightarrow> Inl e | Inr v \<Rightarrow> f v)"

definition bigint_rem :: "int \<Rightarrow> int \<Rightarrow> error + int" where
  "bigint_rem a b = (if b = 0 then Inl DivisionByZero else Inr (a smod b))"

subsection \<open>parseValueBigInt\<close>

text \<open>
  A string is a list of characters, one \<^typ>\<open>char\<close> for each code point below 256.
  \<^verbatim>\<open>toLowerCase\<close> on that range maps \<^verbatim>\<open>A-Z\<close> and the Latin-1 capital letters to
  their small forms; \<^verbatim>\<open>indexOf\<close> returns \<open>-1\<close> for an absent character.
\<close>

definition digits :: string where
  "digits = ''0123456789abcdefghijklmnopqrstuvwxyz''"

fun indexOf_from :: "string \<Rightarrow> char \<Rightarrow> int \<Rightarrow> int" where
  "indexOf_from [] c i = - 1"
| "indexOf_from (x # xs) c i = (if x = c then i else indexOf_from xs c (i + 1))"

definition indexOf :: "string \<Rightarrow> char \<Rightarrow> int" where
  "indexOf s c = indexOf_from s c 0"

definition toLowerCase_char :: "char \<Rightarrow> char" where
  "toLowerCase_char c =
     (let n = (of_char c :: nat)
      in if (65 \<le> n \<and> n \<le> 90) \<or> (192 \<le> n \<and> n \<le> 222 \<and> n \<noteq> 215)
         then char_of (n + 32) else c)"

definition toLowerCase :: "string \<Rightarrow> string" where
  "toLowerCase s = map toLowerCase_char s"

fun parse_loop :: "int \<Rightarrow> string \<Rightarrow> int \<Rightarrow> error + int" where
  "parse_loop base [] result = Inr result"
| "parse_loop base (c # cs) result =
     (let digit = indexOf digits c
      in if digit < 0 then Inl (InvalidDigit c base)
         else parse_loop base cs (result * base + digit))"

definition parseValueBigInt :: "int \<Rightarrow> string \<Rightarrow> error + int" where
  "parseValueBigInt base val = parse_loop base (toLowerCase val) 0"

subsection \<open>modInverse\<close>

text \<open>
  One iteration of the \<^verbatim>\<open>while (a > 1n)\<close> loop on the state \<open>(a, m, x0, x1)\<close>;
  the loop throws when the quotient \<^verbatim>\<open>a / m\<close> has a zero divisor.
\<close>

definition modInverse_step :: "int \<times> int \<times> int \<times> int \<Rightarrow> int \<times> int \<times> int \<times> int" where
  "modInverse_step s =
     (case s of (a, m, x0, x1) \<Rightarrow>
        (let q = a sdiv m in (m, a smod m, x1 - q * x0, x0)))"

function modInverse_loop :: "int \<times> int \<times> int \<times> int \<Rightarrow> error + int" where
  "modInverse_loop (a, m, x0, x1) =
     (if a > 1
      then (if m = 0 then Inl DivisionByZero
            else modInverse_loop (modInverse_step (a, m, x0, x1)))
      else Inr x1)"
  by pat_completeness auto
termination
proof (relation "measure (\<lambda>(a, m, x0, x1).
          if a \<le> 1 then 0 else if m \<le> 0 then 1 else nat m + 2)")
  show "wf (measure (\<lambda>(a :: int, m :: int, x0 :: int, x1 :: int).
          if a \<le> 1 then 0 else if m \<le> 0 then 1 else nat m + 2))"
    by simp
next
  fix a m x0 x1 :: int
  assume a: "1 < a" and m: "m \<noteq> 0"
  have "0 < m \<Longrightarrow> a smod m = a mod m"
    using a by (simp add: signed_modulo_int_def sgn_if)
  moreover have "0 < m \<Longrightarrow> 0 \<le> a mod m \<and> a mod m < m"
    by simp
  ultimately show "(modInverse_step (a, m, x0, x1), (a, m, x0, x1))
          \<in> measure (\<lambda>(a, m, x0, x1).
               if a \<le> 1 then 0 else if m \<le> 0 then 1 else nat m + 2)"
    using a m by (auto simp: modInverse_step_def Let_def)
qed

definition modInverse :: "int \<Rightarrow> int \<Rightarrow> error + int" where
  "modInverse a m =
     (let m0 = m
      in if m = 1 then Inr 0
         else bind_err (modInverse_loop (a, m, 0, 1))
                (\<lambda>x1. Inr (if x1 < 0 then x1 + m0 else x1)))"

text \<open>The pairs \<open>(a, m)\<close> the loop goes through, the last one included.\<close>

function modInverse_trace :: "int \<times> int \<times> int \<times> int \<Rightarrow> (int \<times> int) list" where
  "modInverse_trace (a, m, x0, x1) =
     (if a > 1 \<and> m \<noteq> 0
      then (a, m) # modInverse_trace (modInverse_step (a, m, x0, x1))
      else [(a, m)])"
  by pat_completeness auto
termination
proof (relation "measure (\<lambda>(a, m, x0, x1).
          if a \<le> 1 then 0 else if m \<le> 0 then 1 else nat m + 2)")
  show "wf (measure (\<lambda>(a :: int, m :: int, x0 :: int, x1 :: int).
          if a \<le> 1 then 0 else if m \<le> 0 then 1 else nat m + 2))"
    by simp
next
  fix a m x0 x1 :: int
  assume am: "1 < a \<and> m \<noteq> 0"
  have "0 < m \<Longrightarrow> a smod m = a mod m"
    using am by (simp add: signed_modulo_int_def sgn_if)
  moreover have "0 < m \<Longrightarrow> 0 \<le> a mod m \<and> a mod m < m"
    by simp
  ultimately show "(modInverse_step (a, m, x0, x1), (a, m, x0, x1))
          \<in> measure (\<lambda>(a, m, x0, x1).
               if a \<le> 1 then 0 else if m \<le> 0 then 1 else nat m + 2)"
    using am by (auto simp: modInverse_step_def Let_def)
qed

subsection \<open>lagrangeInterpolateBigInt\<close>

text \<open>
  \<^verbatim>\<open>xPoints\<close> holds integral numbers and \<^verbatim>\<open>targetX\<close> is one, so that
  \<^verbatim>\<open>BigInt(...)\<close> of them is the same integer. \<^verbatim>\<open>yPoints[i]\<close> beyond the end of
  the array is \<^verbatim>\<open>undefined\<close> (\<open>None\<close>), and arithmetic on it throws a TypeError.
  The two counted loops run over the index lists \<open>[0..<n]\<close>.
\<close>

definition lagrange_num :: "int list \<Rightarrow> int \<Rightarrow> int \<Rightarrow> nat \<Rightarrow> error + int" where
  "lagrange_num xPoints targetX primeMod j =
     bigint_rem (targetX - xPoints ! j + primeMod) primeMod"

definition lagrange_den :: "int list \<Rightarrow> int \<Rightarrow> nat \<Rightarrow> nat \<Rightarrow> error + int" where
  "lagrange_den xPoints primeMod i j =
     bigint_rem (xPoints ! i - xPoints ! j + primeMod) primeMod"

definition lagrange_step ::
  "int list \<Rightarrow> int \<Rightarrow> int \<Rightarrow> nat \<Rightarrow> nat \<Rightarrow> int option \<Rightarrow> error + int option" where
  "lagrange_step xPoints targetX primeMod i j term =
     (if i \<noteq> j then
        bind_err (lagrange_num xPoints targetX primeMod j) (\<lambda>num.
        bind_err (lagrange_den xPoints primeMod i j) (\<lambda>den.
        (case term of
           None \<Rightarrow> Inl TypeError
         | Some t \<Rightarrow>
             bind_err (bigint_rem (t * num) primeMod) (\<lambda>t1.
             bind_err (modInverse den primeMod) (\<lambda>inv.
             bind_err (bigint_rem (t1 * inv) primeMod) (\<lambda>t2.
             Inr (Some t2)))))))
      else Inr term)"

fun lagrange_inner ::
  "int list \<Rightarrow> int \<Rightarrow> int \<Rightarrow> nat \<Rightarrow> nat list \<Rightarrow> int option \<Rightarrow> error + int option" where
  "lagrange_inner xPoints targetX primeMod i [] term = Inr term"
| "lagrange_inner xPoints targetX primeMod i (j # js) term =
     (case lagrange_step xPoints targetX primeMod i j term of
        Inl e \<Rightarrow> Inl e
      | Inr term' \<Rightarrow> lagrange_inner xPoints targetX primeMod i js term')"

definition yPoints_at :: "int list \<Rightarrow> nat \<Rightarrow> int option" where
  "yPoints_at yPoints i = (if i < length yPoints then Some (yPoints ! i) else None)"

fun lagrange_outer ::
  "int list \<Rightarrow> int list \<Rightarrow> int \<Rightarrow> int \<Rightarrow> nat list \<Rightarrow> int \<Rightarrow> error + int" where
  "lagrange_outer xPoints yPoints targetX primeMod [] tot = Inr tot"
| "lagrange_outer xPoints yPoints targetX primeMod (i # rest) tot =
     (case lagrange_inner xPoints targetX primeMod i [0..<length xPoints]
             (yPoints_at yPoints i) of
        Inl e \<Rightarrow> Inl e
      | Inr None \<Rightarrow> Inl TypeError
      | Inr (Some term) \<Rightarrow>
          (case bigint_rem (tot + term) primeMod of
             Inl e \<Rightarrow> Inl e
           | Inr tot' \<Rightarrow> lagrange_outer xPoints yPoints targetX primeMod rest tot'))"

definition lagrangeInterpolateBigInt ::
  "int list \<Rightarrow> int list \<Rightarrow> int \<Rightarrow> int \<Rightarrow> error + int" where
  "lagrangeInterpolateBigInt xPoints yPoints targetX primeMod =
     lagrange_outer xPoints yPoints targetX primeMod [0..<length xPoints] 0"

subsection \<open>recoverSecret\<close>

text \<open>
  The request after loading: \<^verbatim>\<open>data.keys.n\<close>, \<^verbatim>\<open>data.keys.k\<close>, and the entries
  of the object other than \<^verbatim>\<open>keys\<close> in the order of \<^verbatim>\<open>Object.keys\<close>, each with
  its key read by \<^verbatim>\<open>parseInt\<close> and its base read by \<^verbatim>\<open>parseInt(.., 10)\<close>
  (both integral). The function prints the used indices, the decoded shares and the
  recovered secret; the model returns the three.
\<close>

record share =
  share_base :: int
  share_value :: string

record request =
  keys_n :: int
  keys_k :: int
  shares :: "(int \<times> share) list"

definition slice0 :: "int \<Rightarrow> 'a list \<Rightarrow> 'a list" where
  \<comment> \<open>\<^verbatim>\<open>.slice(0, k)\<close>: a negative end counts from the end of the array\<close>
  "slice0 k xs =
     (if k < 0 then take (nat (int (length xs) + k)) xs else take (nat k) xs)"

definition select_indices :: "request \<Rightarrow> (int \<times> share) list" where
  "select_indices data = slice0 (keys_k data) (sort_key fst (shares data))"

fun decode_selected ::
  "(int \<times> share) list \<Rightarrow> int list \<Rightarrow> int list \<Rightarrow> error + (int list \<times> int list)" where
  "decode_selected [] xPoints yPoints = Inr (xPoints, yPoints)"
| "decode_selected ((key, sh) # rest) xPoints yPoints =
     (case parseValueBigInt (share_base sh) (share_value sh) of
        Inl e \<Rightarrow> Inl e
      | Inr y \<Rightarrow> decode_selected rest (xPoints @ [key]) (yPoints @ [y]))"

definition PRIME :: int where
  "PRIME = 2 ^ 521 - 1"

definition recoverSecret :: "request \<Rightarrow> error + (int list \<times> int list \<times> int)" where
  "recoverSecret data =
     bind_err (decode_selected (select_indices data) [] []) (\<lambda>(xPoints, yPoints).
     bind_err (lagrangeInterpolateBigInt xPoints yPoints 0 PRIME) (\<lambda>recoveredC.
     Inr (xPoints, yPoints, recoveredC)))"

text \<open>The first hardcoded test case of the repository (\<^verbatim>\<open>sampleData\<close>).\<close>

definition sampleData :: request where
  "sampleData =
     \<lparr>keys_n = 4, keys_k = 3,
      shares = [(1, \<lparr>share_base = 10, share_value = ''4''\<rparr>),
                (2, \<lparr>share_base = 2, share_value = ''111''\<rparr>),
                (3, \<lparr>share_base = 10, share_value = ''12''\<rparr>),
                (6, \<lparr>share_base = 4, share_value = ''213''\<rparr>)]\<rparr>"

subsection \<open>Notions of the specification\<close>

text \<open>Primality of the modulus, by trial division.\<close>

definition is_prime :: "int \<Rightarrow> bool" where
  "is_prime p \<longleftrightarrow> 1 < p \<and> (\<forall>d\<in>{2..<p}. \<not> d dvd p)"

text \<open>A polynomial is the list of its coefficients, the constant term first.\<close>

fun poly_eval :: "int list \<Rightarrow> int \<Rightarrow> int" where
  "poly_eval [] x = 0"
| "poly_eval (c # cs) x = c + x * poly_eval cs x"

text \<open>
  The integer a digit string denotes in base \<open>b\<close>, in the words of the specification:
  a character stands for its index in the alphabet \<^verbatim>\<open>0-9a-z\<close>, a capital letter
  for the index of its small form, and the string for the positional sum, most
  significant digit first.
\<close>

definition digit_table :: "(char \<times> int) list" where
  "digit_table =
     [(CHR ''0'', 0), (CHR ''1'', 1), (CHR ''2'', 2), (CHR ''3'', 3), (CHR ''4'', 4),
      (CHR ''5'', 5), (CHR ''6'', 6), (CHR ''7'', 7), (CHR ''8'', 8), (CHR ''9'', 9),
      (CHR ''a'', 10), (CHR ''b'', 11), (CHR ''c'', 12), (CHR ''d'', 13), (CHR ''e'', 14),
      (CHR ''f'', 15), (CHR ''g'', 16), (CHR ''h'', 17), (CHR ''i'', 18), (CHR ''j'', 19),
      (CHR ''k'', 20), (CHR ''l'', 21), (CHR ''m'', 22), (CHR ''n'', 23), (CHR ''o'', 24),
      (CHR ''p'', 25), (CHR ''q'', 26), (CHR ''r'', 27), (CHR ''s'', 28), (CHR ''t'', 29),
      (CHR ''u'', 30), (CHR ''v'', 31), (CHR ''w'', 32), (CHR ''x'', 33), (CHR ''y'', 34),
      (CHR ''z'', 35), (CHR ''A'', 10), (CHR ''B'', 11), (CHR ''C'', 12), (CHR ''D'', 13),
      (CHR ''E'', 14), (CHR ''F'', 15), (CHR ''G'', 16), (CHR ''H'', 17), (CHR ''I'', 18),
      (CHR ''J'', 19), (CHR ''K'', 20), (CHR ''L'', 21), (CHR ''M'', 22), (CHR ''N'', 23),
      (CHR ''O'', 24), (CHR ''P'', 25), (CHR ''Q'', 26), (CHR ''R'', 27), (CHR ''S'', 28),
      (CHR ''T'', 29), (CHR ''U'', 30), (CHR ''V'', 31), (CHR ''W'', 32), (CHR ''X'', 33),
      (CHR ''Y'', 34), (CHR ''Z'', 35)]"

definition digit_value :: "char \<Rightarrow> int option" where
  "digit_value c = map_of digit_table c"

definition denoted :: "int \<Rightarrow> string \<Rightarrow> int" where
  "denoted b s =
     (\<Sum>i<length s. (case digit_value (s ! i) of None \<Rightarrow> 0 | Some d \<Rightarrow> d)
          * b ^ (length s - 1 - i))"

text \<open>
  The invariant of the loop of \<^verbatim>\<open>modInverse\<close> started on \<open>(a0, m0, 0, 1)\<close>: the
  pair stays coprime, both coefficients are Bezout coefficients modulo \<open>m0\<close>, they
  have opposite signs, and \<open>|x1| * m + |x0| * a\<close> stays \<open>m0\<close>.
\<close>

definition modInverse_inv :: "int \<Rightarrow> int \<Rightarrow> int \<times> int \<times> int \<times> int \<Rightarrow> bool" where
  "modInverse_inv a0 m0 s =
     (case s of (a, m, x0, x1) \<Rightarrow>
        1 \<le> a \<and> 0 \<le> m \<and> gcd a m = 1 \<and>
        m0 dvd (x1 * a0 - a) \<and> m0 dvd (x0 * a0 - m) \<and>
        \<bar>x1\<bar> * m + \<bar>x0\<bar> * a = m0 \<and>
        ((0 \<le> x1 \<and> x0 \<le> 0) \<or> (x1 \<le> 0 \<and> 0 \<le> x0)) \<and>
        (a = 1 \<longrightarrow> \<bar>x1\<bar> < m0))"


text \<open>
  The value the interpolation loops compute when no remainder is negative: the inverse
  \<^verbatim>\<open>modInverse\<close> returns for a denominator, the factor one inner iteration
  multiplies the term by, and the sum over the points of the products of factors.
\<close>

definition inv_of :: "int \<Rightarrow> int \<Rightarrow> int" where
  "inv_of p d = (case modInverse d p of Inl e \<Rightarrow> 0 | Inr r \<Rightarrow> r)"

definition lagrange_factor :: "int \<Rightarrow> int \<Rightarrow> int \<Rightarrow> int \<Rightarrow> int" where
  "lagrange_factor t p x x' = ((t - x' + p) mod p) * inv_of p ((x - x' + p) mod p)"

definition basis_factor :: "int \<Rightarrow> int \<Rightarrow> int \<Rightarrow> int \<Rightarrow> int" where
  "basis_factor u p x x' = (u - x') * inv_of p ((x - x' + p) mod p)"

definition lagrange_sum ::
  "(int \<Rightarrow> int \<Rightarrow> int) \<Rightarrow> int list \<Rightarrow> (int \<times> int) list \<Rightarrow> int" where
  "lagrange_sum g xs ps =
     (\<Sum>(x, y)\<leftarrow>ps. y * (\<Prod>x'\<leftarrow>filter (\<lambda>x'. x' \<noteq> x) xs. g x x'))"

text \<open>
  The precondition of the interpolation: a prime modulus and pairwise distinct
  \<open>x\<close> values that differ by less than the modulus and do not exceed
  \<open>targetX + primeMod\<close>, so that no numerator or denominator is negative.
\<close>

definition in_range :: "int \<Rightarrow> int \<Rightarrow> int list \<Rightarrow> bool" where
  "in_range t p xs \<longleftrightarrow>
     is_prime p \<and> distinct xs \<and> (\<forall>x\<in>set xs. \<forall>x'\<in>set xs. x - x' < p)
       \<and> (\<forall>x\<in>set xs. x \<le> t + p)"

text \<open>Functions given by a polynomial with fewer than \<open>n\<close> coefficients.\<close>

definition polyfun :: "nat \<Rightarrow> (int \<Rightarrow> int) \<Rightarrow> bool" where
  "polyfun n g \<longleftrightarrow> (\<exists>cs. length cs \<le> n \<and> (\<forall>u. g u = poly_eval cs u))"

fun poly_add :: "int list \<Rightarrow> int list \<Rightarrow> int list" where
  "poly_add [] bs = bs"
| "poly_add (a # as) [] = a # as"
| "poly_add (a # as) (b # bs) = (a + b) # poly_add as bs"

text \<open>The term of the sum for the point of index \<open>i\<close>, by indices as the loops run.\<close>

definition lagrange_index_term :: "int \<Rightarrow> int \<Rightarrow> int list \<Rightarrow> int list \<Rightarrow> nat \<Rightarrow> int" where
  "lagrange_index_term t p xs ys i =
     ys ! i * (\<Prod>j\<leftarrow>filter (\<lambda>j. j \<noteq> i) [0..<length xs]. lagrange_factor t p (xs ! i) (xs ! j))"

section \<open>Properties\<close>

subsection \<open>modInverse\<close>

lemma smod_nonneg: "0 \<le> a \<Longrightarrow> 0 < m \<Longrightarrow> (a::int) smod m = a mod m"
  by (simp add: signed_modulo_int_def sgn_if)

lemma sdiv_nonneg: "0 \<le> a \<Longrightarrow> 0 < m \<Longrightarrow> (a::int) sdiv m = a div m"
  by (simp add: signed_divide_int_def sgn_if)

lemma modInverse_inv_step:
  assumes inv: "modInverse_inv a0 m0 (a, m, x0, x1)" and a: "1 < a" and m0: "0 < m0"
  shows "m \<noteq> 0 \<and> modInverse_inv a0 m0 (modInverse_step (a, m, x0, x1))"
proof -
  from inv have g: "gcd a m = 1" and mge: "0 \<le> m"
    and d1: "m0 dvd (x1 * a0 - a)" and d0: "m0 dvd (x0 * a0 - m)"
    and det: "\<bar>x1\<bar> * m + \<bar>x0\<bar> * a = m0"
    and sg: "(0 \<le> x1 \<and> x0 \<le> 0) \<or> (x1 \<le> 0 \<and> 0 \<le> x0)"
    by (simp_all add: modInverse_inv_def)
  have mnz: "m \<noteq> 0"
  proof
    assume "m = 0"
    with g have "\<bar>a\<bar> = 1" by simp
    with a show False by simp
  qed
  with mge have mpos: "0 < m" by simp
  define q where "q = a div m"
  have q0: "0 \<le> q" using a mpos by (simp add: q_def pos_imp_zdiv_nonneg_iff)
  have sd: "a sdiv m = q" using a mpos by (simp add: sdiv_nonneg q_def)
  have sm: "a smod m = a - q * m" using a mpos
    by (simp add: smod_nonneg q_def minus_div_mult_eq_mod)
  have st: "modInverse_step (a, m, x0, x1) = (m, a - q * m, x1 - q * x0, x0)"
    by (simp add: modInverse_step_def sd sm)
  have r0: "0 \<le> a - q * m"
  proof -
    have "a mod m = a - q * m" by (simp add: q_def minus_div_mult_eq_mod)
    moreover have "0 \<le> a mod m" using mpos by simp
    ultimately show ?thesis by simp
  qed
  have g': "gcd m (a - q * m) = 1"
  proof -
    have "gcd m (a mod m) = gcd a m" by (simp add: gcd.commute gcd_red_int[symmetric])
    moreover have "a mod m = a - q * m" by (simp add: q_def minus_div_mult_eq_mod)
    ultimately show ?thesis using g by simp
  qed
  have e1: "m0 dvd ((x1 - q * x0) * a0 - (a - q * m))"
  proof -
    have eq: "(x1 - q * x0) * a0 - (a - q * m) = (x1 * a0 - a) - q * (x0 * a0 - m)"
      by (simp add: algebra_simps)
    have "m0 dvd q * (x0 * a0 - m)" using d0 by (rule dvd_mult)
    with d1 have "m0 dvd (x1 * a0 - a) - q * (x0 * a0 - m)" by (rule dvd_diff)
    then show ?thesis by (simp only: eq)
  qed
  have ab: "\<bar>x1 - q * x0\<bar> = \<bar>x1\<bar> + q * \<bar>x0\<bar>"
  proof -
    from sg show ?thesis
    proof
      assume h: "0 \<le> x1 \<and> x0 \<le> 0"
      then have "q * x0 \<le> 0" using q0 by (simp add: mult_nonneg_nonpos)
      then have "0 \<le> x1 - q * x0" using h by linarith
      then have "\<bar>x1 - q * x0\<bar> = x1 - q * x0" by (rule abs_of_nonneg)
      moreover have "\<bar>x1\<bar> = x1" "\<bar>x0\<bar> = - x0" using h by simp_all
      ultimately show ?thesis by (simp add: algebra_simps)
    next
      assume h: "x1 \<le> 0 \<and> 0 \<le> x0"
      then have "0 \<le> q * x0" using q0 by simp
      then have "x1 - q * x0 \<le> 0" using h by linarith
      then have "\<bar>x1 - q * x0\<bar> = - (x1 - q * x0)" by (rule abs_of_nonpos)
      moreover have "\<bar>x1\<bar> = - x1" "\<bar>x0\<bar> = x0" using h by simp_all
      ultimately show ?thesis by (simp add: algebra_simps)
    qed
  qed
  have det': "\<bar>x0\<bar> * (a - q * m) + \<bar>x1 - q * x0\<bar> * m = m0"
    unfolding ab using det by (simp add: algebra_simps)
  have sg': "(0 \<le> x0 \<and> x1 - q * x0 \<le> 0) \<or> (x0 \<le> 0 \<and> 0 \<le> x1 - q * x0)"
  proof -
    from sg show ?thesis
    proof
      assume h: "0 \<le> x1 \<and> x0 \<le> 0"
      then have "q * x0 \<le> 0" using q0 by (simp add: mult_nonneg_nonpos)
      then show ?thesis using h by simp
    next
      assume h: "x1 \<le> 0 \<and> 0 \<le> x0"
      then have "0 \<le> q * x0" using q0 by simp
      then show ?thesis using h by simp
    qed
  qed
  have bound: "m = 1 \<longrightarrow> \<bar>x0\<bar> < m0"
  proof
    assume "m = 1"
    have le: "\<bar>x0\<bar> * a \<le> m0"
    proof -
      have "0 \<le> \<bar>x1\<bar> * m" using mge by simp
      then show ?thesis using det by linarith
    qed
    show "\<bar>x0\<bar> < m0"
    proof (cases "x0 = 0")
      case True
      then show ?thesis using m0 by simp
    next
      case False
      then have "0 < \<bar>x0\<bar>" by simp
      then have "\<bar>x0\<bar> * 1 < \<bar>x0\<bar> * a" using a by (simp only: mult_strict_left_mono)
      then show ?thesis using le by simp
    qed
  qed
  show ?thesis
    using mnz mpos r0 g' e1 d0 det' sg' bound
    by (simp add: st modInverse_inv_def)
qed

lemma modInverse_loop_inv:
  assumes "modInverse_inv a0 m0 s" and "0 < m0"
  shows "\<exists>r. modInverse_loop s = Inr r \<and> \<bar>r\<bar> < m0 \<and> m0 dvd (r * a0 - 1)"
  using assms
proof (induction s rule: modInverse_loop.induct)
  case (1 a m x0 x1)
  show ?case
  proof (cases "1 < a")
    case True
    from modInverse_inv_step[OF "1.prems"(1) True "1.prems"(2)]
    have mnz: "m \<noteq> 0" and inv': "modInverse_inv a0 m0 (modInverse_step (a, m, x0, x1))"
      by simp_all
    from "1.IH"[OF True mnz inv' "1.prems"(2)] True mnz show ?thesis by simp
  next
    case False
    with "1.prems"(1) have "a = 1" by (simp add: modInverse_inv_def)
    with "1.prems"(1) show ?thesis by (simp add: modInverse_inv_def)
  qed
qed

lemma modInverse_coprime:
  assumes a: "0 < a" and m: "1 < m" and g: "gcd a m = 1"
  shows "\<exists>r. modInverse a m = Inr r \<and> 0 \<le> r \<and> r < m \<and> (a * r) mod m = 1"
proof -
  have "modInverse_inv a m (a, m, 0, 1)"
    using a m g by (simp add: modInverse_inv_def)
  from modInverse_loop_inv[OF this] m
  obtain x1 where l: "modInverse_loop (a, m, 0, 1) = Inr x1"
    and b: "\<bar>x1\<bar> < m" and d: "m dvd (x1 * a - 1)" by auto
  define r where "r = (if x1 < 0 then x1 + m else x1)"
  have res: "modInverse a m = Inr r"
    using m l by (simp add: modInverse_def bind_err_def r_def)
  have rng: "0 \<le> r \<and> r < m" using b by (auto simp: r_def)
  have "m dvd (a * r - 1)"
  proof (cases "x1 < 0")
    case True
    then have eq: "a * r - 1 = (x1 * a - 1) + a * m" by (simp add: r_def algebra_simps)
    have "m dvd (x1 * a - 1) + a * m" using d by (rule dvd_add) simp
    then show ?thesis by (simp only: eq)
  next
    case False
    then show ?thesis using d by (simp add: r_def mult.commute)
  qed
  then have "(a * r) mod m = 1 mod m" by (simp add: mod_eq_dvd_iff)
  then have "(a * r) mod m = 1" using m by simp
  with res rng show ?thesis by simp
qed


lemma is_prime_coprime:
  assumes p: "is_prime p" and a: "0 < a" "a < p"
  shows "gcd a p = 1"
proof -
  define g where "g = gcd a p"
  have gp: "g dvd p" and ga: "g dvd a" by (simp_all add: g_def)
  have g0: "0 \<le> g" by (simp add: g_def)
  have gnz: "g \<noteq> 0" using a by (simp add: g_def)
  have "g \<le> a" using ga a by (simp add: zdvd_imp_le)
  then have gl: "g < p" using a by simp
  have "\<not> 2 \<le> g"
  proof
    assume "2 \<le> g"
    then have "g \<in> {2..<p}" using gl by simp
    with p gp show False by (auto simp: is_prime_def)
  qed
  with g0 gnz have "g = 1" by simp
  then show ?thesis by (simp add: g_def)
qed

lemma is_prime_dvd_mult:
  assumes p: "is_prime p" and d: "p dvd a * b"
  shows "p dvd a \<or> p dvd b"
proof (cases "p dvd a")
  case True
  then show ?thesis by simp
next
  case False
  have p1: "1 < p" using p by (simp add: is_prime_def)
  define r where "r = a mod p"
  have "r \<noteq> 0" using False by (simp add: r_def dvd_eq_mod_eq_0)
  moreover have "0 \<le> r" "r < p" using p1 by (simp_all add: r_def)
  ultimately have "gcd r p = 1" using is_prime_coprime[OF p, of r] by simp
  then have "gcd p a = 1" by (simp add: r_def gcd.commute gcd_red_int[symmetric])
  then have "coprime p a" by (simp add: coprime_iff_gcd_eq_1)
  then have "p dvd b" using d by (simp add: coprime_dvd_mult_right_iff)
  then show ?thesis by simp
qed

text \<open>
  Claim C5. For a prime modulus \<open>m\<close> and \<open>0 < a < m\<close>, \<^verbatim>\<open>modInverse(a, m)\<close>
  returns a value \<open>r\<close> with \<open>0 \<le> r < m\<close> and \<open>(a * r) mod m = 1\<close>.
\<close>

theorem modInverse_correct:
  assumes "is_prime m" and "0 < a" and "a < m"
  shows "\<exists>r. modInverse a m = Inr r \<and> 0 \<le> r \<and> r < m \<and> (a * r) mod m = 1"
proof -
  have "1 < m" using assms(1) by (simp add: is_prime_def)
  moreover have "gcd a m = 1" using assms by (rule is_prime_coprime)
  ultimately show ?thesis using assms(2) by (intro modInverse_coprime)
qed

theorem modInverse_correct_witness:
  "is_prime 7 \<and> modInverse 3 7 = Inr 5 \<and> (3 * 5) mod 7 = (1::int)"
proof -
  have p: "is_prime 7" by code_simp
  have e: "modInverse 3 7 = Inr 5" by code_simp
  from modInverse_correct[OF p, of 3] p e show ?thesis by simp
qed

lemma modInverse_trace_props:
  assumes "1 \<le> a" and "0 \<le> m" and "gcd a m = 1"
  shows "sorted_wrt (>) (map snd (modInverse_trace (a, m, x0, x1)))
       \<and> (\<forall>s\<in>set (modInverse_trace (a, m, x0, x1)). snd s \<le> m \<and> (1 < fst s \<longrightarrow> snd s \<noteq> 0))
       \<and> fst (last (modInverse_trace (a, m, x0, x1))) = 1"
  using assms
proof (induction "(a, m, x0, x1)" arbitrary: a m x0 x1 rule: modInverse_trace.induct)
  case (1 a m x0 x1)
  show ?case
  proof (cases "1 < a")
    case True
    have mnz: "m \<noteq> 0"
    proof
      assume "m = 0"
      with "1.prems"(3) have "\<bar>a\<bar> = 1" by simp
      with True show False by simp
    qed
    with "1.prems"(2) have mpos: "0 < m" by simp
    have sm: "a smod m = a mod m" using True mpos by (simp add: smod_nonneg)
    have st: "modInverse_step (a, m, x0, x1) = (m, a mod m, x1 - (a sdiv m) * x0, x0)"
      by (simp add: modInverse_step_def sm)
    have r: "0 \<le> a mod m" "a mod m < m" using mpos by simp_all
    have g: "gcd m (a mod m) = 1"
      using "1.prems"(3) by (simp add: gcd.commute gcd_red_int[symmetric])
    have m1: "1 \<le> m" using mpos by simp
    define T where "T = modInverse_trace (m, a mod m, x1 - (a sdiv m) * x0, x0)"
    have IH: "sorted_wrt (>) (map snd T)
       \<and> (\<forall>s\<in>set T. snd s \<le> a mod m \<and> (1 < fst s \<longrightarrow> snd s \<noteq> 0))
       \<and> fst (last T) = 1"
      unfolding T_def by (rule "1.hyps"[OF _ st m1 r(1) g]) (simp add: True mnz)
    have un: "modInverse_trace (a, m, x0, x1) = (a, m) # T"
      unfolding T_def using True mnz by (simp add: st)
    have ne: "T \<noteq> []"
      unfolding T_def by (subst modInverse_trace.simps) simp
    have lt: "\<forall>s\<in>set T. snd s < m" using IH r(2) by fastforce
    show ?thesis
      unfolding un using IH mnz ne lt by auto
  next
    case False
    with "1.prems"(1) have "a = 1" by simp
    then show ?thesis using "1.prems" by simp
  qed
qed

text \<open>
  Claim C10. For \<open>0 < a < m\<close> with \<open>gcd a m = 1\<close> the loop of
  \<^verbatim>\<open>modInverse\<close> ends by its condition and the function returns a value: along
  the pairs \<open>(a, m)\<close> the loop goes through, the second component strictly decreases,
  it is not \<open>0\<close> while the first component exceeds \<open>1\<close>, and the last pair has
  first component \<open>1\<close>.
\<close>

theorem modInverse_terminates:
  assumes "0 < a" and "a < m" and "gcd a m = 1"
  shows "(\<exists>r. modInverse a m = Inr r)
       \<and> sorted_wrt (>) (map snd (modInverse_trace (a, m, 0, 1)))
       \<and> (\<forall>s\<in>set (modInverse_trace (a, m, 0, 1)). 1 < fst s \<longrightarrow> snd s \<noteq> 0)
       \<and> fst (last (modInverse_trace (a, m, 0, 1))) = 1"
proof -
  have m: "1 < m" using assms by simp
  from modInverse_coprime[OF assms(1) m assms(3)]
  have "\<exists>r. modInverse a m = Inr r" by blast
  moreover from modInverse_trace_props[of a m 0 1] assms
  have "sorted_wrt (>) (map snd (modInverse_trace (a, m, 0, 1)))
       \<and> (\<forall>s\<in>set (modInverse_trace (a, m, 0, 1)). snd s \<le> m \<and> (1 < fst s \<longrightarrow> snd s \<noteq> 0))
       \<and> fst (last (modInverse_trace (a, m, 0, 1))) = 1"
    by simp
  ultimately show ?thesis by blast
qed

theorem modInverse_terminates_witness:
  "modInverse 3 7 = Inr 5 \<and> modInverse_trace (3, 7, 0, 1) = [(3, 7), (7, 3), (3, 1), (1, 0)]
   \<and> sorted_wrt (>) (map snd (modInverse_trace (3, 7, 0, 1)))"
proof -
  have e: "modInverse 3 7 = Inr 5" by code_simp
  have t: "modInverse_trace (3, 7, 0, 1) = [(3, 7), (7, 3), (3, 1), (1, 0)]" by code_simp
  have g: "gcd (3::int) 7 = 1" by code_simp
  from modInverse_terminates[of 3 7] g e t show ?thesis by simp
qed


subsection \<open>parseValueBigInt\<close>

lemma digit_table_indexOf:
  "list_all (\<lambda>(c, d). indexOf digits (toLowerCase_char c) = d \<and> 0 \<le> d) digit_table"
  by code_simp

lemma indexOf_digit_value:
  assumes "digit_value c = Some d"
  shows "indexOf digits (toLowerCase_char c) = d \<and> 0 \<le> d"
proof -
  from assms have "(c, d) \<in> set digit_table"
    by (simp add: digit_value_def map_of_SomeD)
  with digit_table_indexOf show ?thesis
    by (auto simp: list_all_iff)
qed

lemma denoted_Nil: "denoted b [] = 0"
  by (simp add: denoted_def)

lemma denoted_Cons:
  "denoted b (c # cs)
     = (case digit_value c of None \<Rightarrow> 0 | Some d \<Rightarrow> d) * b ^ length cs + denoted b cs"
  by (simp add: denoted_def sum.lessThan_Suc_shift del: sum.lessThan_Suc)

lemma parse_loop_denoted:
  assumes "\<forall>c\<in>set s. \<exists>d. digit_value c = Some d"
  shows "parse_loop b (map toLowerCase_char s) acc = Inr (acc * b ^ length s + denoted b s)"
  using assms
proof (induction s arbitrary: acc)
  case Nil
  show ?case by (simp add: denoted_Nil)
next
  case (Cons c cs)
  then obtain d where d: "digit_value c = Some d" by auto
  from indexOf_digit_value[OF d]
  have ix: "indexOf digits (toLowerCase_char c) = d" and d0: "0 \<le> d" by simp_all
  have "parse_loop b (map toLowerCase_char (c # cs)) acc
          = parse_loop b (map toLowerCase_char cs) (acc * b + d)"
    using ix d0 by (simp add: Let_def)
  also have "\<dots> = Inr ((acc * b + d) * b ^ length cs + denoted b cs)"
    using Cons by simp
  also have "(acc * b + d) * b ^ length cs + denoted b cs
          = acc * b ^ length (c # cs) + denoted b (c # cs)"
    by (simp add: denoted_Cons d algebra_simps)
  finally show ?case .
qed

lemma denoted_nonneg:
  assumes "0 \<le> b" and "\<forall>c\<in>set s. \<exists>d. digit_value c = Some d"
  shows "0 \<le> denoted b s"
  using assms(2)
proof (induction s)
  case Nil
  show ?case by (simp add: denoted_Nil)
next
  case (Cons c cs)
  then obtain d where d: "digit_value c = Some d" by auto
  from indexOf_digit_value[OF d] have "0 \<le> d" by simp
  then have "0 \<le> d * b ^ length cs" using assms(1) by simp
  moreover have "0 \<le> denoted b cs" using Cons by simp
  ultimately show ?case by (simp add: denoted_Cons d)
qed

text \<open>
  Claim C2. For a base \<open>b\<close> in \<open>[2, 36]\<close> and a non-empty string whose characters
  are digits of value below \<open>b\<close> (capital letters counting as small ones),
  \<^verbatim>\<open>parseValueBigInt\<close> returns the non-negative integer the string denotes in base
  \<open>b\<close>; so \<^verbatim>\<open>111\<close> in base 2 is 7, \<^verbatim>\<open>213\<close> in base 4 is 39 and \<^verbatim>\<open>ff\<close> in
  base 16 is 255.
\<close>

theorem parseValueBigInt_denoted:
  assumes "2 \<le> b" and "b \<le> 36" and "s \<noteq> []"
    and "\<forall>c\<in>set s. \<exists>d. digit_value c = Some d \<and> d < b"
  shows "parseValueBigInt b s = Inr (denoted b s) \<and> 0 \<le> denoted b s
       \<and> parseValueBigInt 2 ''111'' = Inr 7
       \<and> parseValueBigInt 4 ''213'' = Inr 39
       \<and> parseValueBigInt 16 ''ff'' = Inr 255"
proof -
  have dv: "\<forall>c\<in>set s. \<exists>d. digit_value c = Some d" using assms(4) by blast
  have "parseValueBigInt b s = Inr (denoted b s)"
    using parse_loop_denoted[OF dv, of b 0] by (simp add: parseValueBigInt_def toLowerCase_def)
  moreover have "0 \<le> denoted b s" using assms(1) dv by (intro denoted_nonneg) simp_all
  moreover have "parseValueBigInt 2 ''111'' = Inr 7" by code_simp
  moreover have "parseValueBigInt 4 ''213'' = Inr 39" by code_simp
  moreover have "parseValueBigInt 16 ''ff'' = Inr 255" by code_simp
  ultimately show ?thesis by simp
qed

theorem parseValueBigInt_denoted_witness:
  "parseValueBigInt 16 ''Ff'' = Inr 255 \<and> denoted 16 ''Ff'' = 255"
proof -
  have h: "\<forall>c\<in>set ''Ff''. \<exists>d. digit_value c = Some d \<and> d < 16"
    by (simp add: digit_value_def digit_table_def)
  have d: "denoted 16 ''Ff'' = 255" by code_simp
  from parseValueBigInt_denoted[of 16 "''Ff''"] h d show ?thesis by simp
qed

text \<open>
  Claim C3. \<^verbatim>\<open>parseValueBigInt\<close> throws only for a character outside the
  alphabet: the digit \<^verbatim>\<open>g\<close>, of value 16, is accepted in base 16 and the call
  returns 16.
\<close>

theorem parseValueBigInt_g_base16: "parseValueBigInt 16 ''g'' = Inr 16"
  by code_simp











subsection \<open>recoverSecret\<close>

lemma decode_selected_xPoints:
  "decode_selected sel xs ys = Inr (xs', ys') \<Longrightarrow> xs' = xs @ map fst sel"
  by (induction sel xs ys rule: decode_selected.induct) (auto split: sum.splits)

lemma decode_selected_all:
  "map (\<lambda>p. parseValueBigInt (share_base (snd p)) (share_value (snd p))) sel = map Inr ys'
     \<Longrightarrow> decode_selected sel xs ys = Inr (xs @ map fst sel, ys @ ys')"
proof (induction sel xs ys arbitrary: ys' rule: decode_selected.induct)
  case (1 xs ys)
  then show ?case by simp
next
  case (2 key sh rest xs ys)
  from "2.prems" obtain y ys'' where ys': "ys' = y # ys''"
    and y: "parseValueBigInt (share_base sh) (share_value sh) = Inr y"
    and r: "map (\<lambda>p. parseValueBigInt (share_base (snd p)) (share_value (snd p))) rest = map Inr ys''"
    by (cases ys') auto
  from "2.IH"[OF y r] show ?case by (simp add: y ys')
qed


lemma lagrange_single_point:
  "p \<noteq> 0 \<Longrightarrow> lagrangeInterpolateBigInt [x] [y] t p = Inr (y smod p)"
  by (simp add: lagrangeInterpolateBigInt_def lagrange_step_def yPoints_at_def bigint_rem_def)

text \<open>
  Claim C4. \<^verbatim>\<open>recoverSecret\<close> has no check of the number of shares: on a request
  with threshold 3 and the single share \<open>(1, 4)\<close> it interpolates through that one
  point and prints the secret 4.
\<close>

theorem recoverSecret_one_of_three:
  "recoverSecret
     \<lparr>keys_n = 4, keys_k = 3,
      shares = [(1, \<lparr>share_base = 10, share_value = ''4''\<rparr>)]\<rparr>
   = Inr ([1], [4], 4)"
proof -
  have sel: "select_indices \<lparr>keys_n = 4, keys_k = 3,
      shares = [(1, \<lparr>share_base = 10, share_value = ''4''\<rparr>)]\<rparr>
      = [(1, \<lparr>share_base = 10, share_value = ''4''\<rparr>)]"
    by (simp add: select_indices_def slice0_def)
  have p: "parseValueBigInt 10 ''4'' = Inr 4" by code_simp
  have P: "PRIME \<noteq> 0" by (simp add: PRIME_def)
  have r: "4 smod PRIME = 4" by (simp add: PRIME_def signed_modulo_int_def)
  show ?thesis
    by (simp add: recoverSecret_def sel p bind_err_def lagrange_single_point[OF P] r)
qed

lemma smod_decompose:
  assumes "0 \<le> r" and "r < p" and "0 \<le> k" and "a = k * p + r"
  shows "(a :: int) smod p = r"
proof -
  have p: "0 < p" using assms(1,2) by simp
  have "0 \<le> k * p" using assms(3) p by simp
  then have a: "0 \<le> a" using assms(1,4) by simp
  have "a smod p = a mod p" using a p by (simp add: signed_modulo_int_def sgn_if)
  also have "\<dots> = r" using assms(1,2,4) by simp
  finally show ?thesis .
qed

lemma lagrange_step_calc:
  assumes "p \<noteq> 0" and "i \<noteq> j"
    and "(xs ! i - xs ! j + p) smod p = d" and "modInverse d p = Inr v"
    and "(t - xs ! j + p) smod p = n"
    and "(tm * n) smod p = a" and "(a * v) smod p = b"
  shows "lagrange_step xs t p i j (Some tm) = Inr (Some b)"
  using assms
  by (simp add: lagrange_step_def lagrange_num_def lagrange_den_def bigint_rem_def bind_err_def)

lemma lagrange_step_same: "lagrange_step xs t p i i term = Inr term"
  by (simp add: lagrange_step_def)

lemma PRIME_large: "100 < PRIME"
  by (simp add: PRIME_def)

lemma PRIME_odd: "PRIME = 2 * ((PRIME - 1) div 2) + 1"
  by (simp add: PRIME_def)

lemma modInverse_PRIME_minus_1: "modInverse (PRIME - 1) PRIME = Inr (PRIME - 1)"
  by (simp add: modInverse_def modInverse_step_def bind_err_def PRIME_def
      signed_divide_int_def signed_modulo_int_def)

lemma modInverse_PRIME_minus_2: "modInverse (PRIME - 2) PRIME = Inr ((PRIME - 1) div 2)"
  by (simp add: modInverse_def modInverse_step_def bind_err_def PRIME_def
      signed_divide_int_def signed_modulo_int_def)

lemma modInverse_PRIME_1: "modInverse 1 PRIME = Inr 1"
  by (simp add: modInverse_def modInverse_step_def bind_err_def PRIME_def)

lemma modInverse_PRIME_2: "modInverse 2 PRIME = Inr ((PRIME - 1) div 2 + 1)"
  by (simp add: modInverse_def modInverse_step_def bind_err_def PRIME_def
      signed_divide_int_def signed_modulo_int_def)

lemma lagrange_sample_points:
  "lagrangeInterpolateBigInt [1, 2, 3] [4, 7, 12] 0 PRIME = Inr 3"
proof -
  define P where "P = PRIME"
  define H where "H = (PRIME - 1) div 2"
  have P: "100 < P" unfolding P_def by (rule PRIME_large)
  have PH: "P = 2 * H + 1" unfolding P_def H_def by (rule PRIME_odd)
  have H: "49 < H" using P PH by simp
  have p0: "P \<noteq> 0" using P by simp
  have iP1: "modInverse (P - 1) P = Inr (P - 1)"
    unfolding P_def by (rule modInverse_PRIME_minus_1)
  have iP2: "modInverse (P - 2) P = Inr H"
    unfolding P_def H_def by (rule modInverse_PRIME_minus_2)
  have i1: "modInverse 1 P = Inr 1" unfolding P_def by (rule modInverse_PRIME_1)
  have i2: "modInverse 2 P = Inr (H + 1)"
    unfolding P_def H_def by (rule modInverse_PRIME_2)
  note xs = nth_Cons_0 nth_Cons_Suc One_nat_def[symmetric]
  \<comment> \<open>point 0: \<open>x = 1\<close>, \<open>y = 4\<close>\<close>
  have s01: "lagrange_step [1, 2, 3] 0 P 0 1 (Some 4) = Inr (Some 8)"
  proof (rule lagrange_step_calc[OF p0 _ _ iP1, where n = "P - 2" and a = "P - 8"])
    show "(0::nat) \<noteq> 1" by simp
    show "([1, 2, 3] ! 0 - [1, 2, 3] ! 1 + P) smod P = P - 1"
      using P by (intro smod_decompose[where k = 0]) simp_all
    show "(0 - [1, 2, 3] ! 1 + P) smod P = P - 2"
      using P by (intro smod_decompose[where k = 0]) simp_all
    show "(4 * (P - 2)) smod P = P - 8"
      using P by (intro smod_decompose[where k = 3]) simp_all
    show "((P - 8) * (P - 1)) smod P = 8"
      using P by (intro smod_decompose[where k = "P - 9"]) (simp_all add: algebra_simps)
  qed
  have s02: "lagrange_step [1, 2, 3] 0 P 0 2 (Some 8) = Inr (Some 12)"
  proof (rule lagrange_step_calc[OF p0 _ _ iP2, where n = "P - 3" and a = "P - 24"])
    show "(0::nat) \<noteq> 2" by simp
    show "([1, 2, 3] ! 0 - [1, 2, 3] ! 2 + P) smod P = P - 2"
      using P by (intro smod_decompose[where k = 0]) simp_all
    show "(0 - [1, 2, 3] ! 2 + P) smod P = P - 3"
      using P by (intro smod_decompose[where k = 0]) simp_all
    show "(8 * (P - 3)) smod P = P - 24"
      using P by (intro smod_decompose[where k = 7]) simp_all
    show "((P - 24) * H) smod P = 12"
      using P H by (intro smod_decompose[where k = "H - 12"]) (simp_all add: PH algebra_simps)
  qed
  have t0: "lagrange_inner [1, 2, 3] 0 P 0 [0, 1, 2] (Some 4) = Inr (Some 12)"
    by (simp only: lagrange_inner.simps s01 s02 lagrange_step_same sum.case)
  \<comment> \<open>point 1: \<open>x = 2\<close>, \<open>y = 7\<close>\<close>
  have s10: "lagrange_step [1, 2, 3] 0 P 1 0 (Some 7) = Inr (Some (P - 7))"
  proof (rule lagrange_step_calc[OF p0 _ _ i1, where n = "P - 1" and a = "P - 7"])
    show "(1::nat) \<noteq> 0" by simp
    show "([1, 2, 3] ! 1 - [1, 2, 3] ! 0 + P) smod P = 1"
      using P by (intro smod_decompose[where k = 1]) simp_all
    show "(0 - [1, 2, 3] ! 0 + P) smod P = P - 1"
      using P by (intro smod_decompose[where k = 0]) simp_all
    show "(7 * (P - 1)) smod P = P - 7"
      using P by (intro smod_decompose[where k = 6]) simp_all
    show "((P - 7) * 1) smod P = P - 7"
      using P by (intro smod_decompose[where k = 0]) simp_all
  qed
  have s12: "lagrange_step [1, 2, 3] 0 P 1 2 (Some (P - 7)) = Inr (Some (P - 21))"
  proof (rule lagrange_step_calc[OF p0 _ _ iP1, where n = "P - 3" and a = 21])
    show "(1::nat) \<noteq> 2" by simp
    show "([1, 2, 3] ! 1 - [1, 2, 3] ! 2 + P) smod P = P - 1"
      using P by (intro smod_decompose[where k = 0]) simp_all
    show "(0 - [1, 2, 3] ! 2 + P) smod P = P - 3"
      using P by (intro smod_decompose[where k = 0]) simp_all
    show "((P - 7) * (P - 3)) smod P = 21"
      using P by (intro smod_decompose[where k = "P - 10"]) (simp_all add: algebra_simps)
    show "(21 * (P - 1)) smod P = P - 21"
      using P by (intro smod_decompose[where k = 20]) simp_all
  qed
  have t1: "lagrange_inner [1, 2, 3] 0 P 1 [0, 1, 2] (Some 7) = Inr (Some (P - 21))"
    by (simp only: lagrange_inner.simps s10 s12 lagrange_step_same sum.case)
  \<comment> \<open>point 2: \<open>x = 3\<close>, \<open>y = 12\<close>\<close>
  have s20: "lagrange_step [1, 2, 3] 0 P 2 0 (Some 12) = Inr (Some (P - 6))"
  proof (rule lagrange_step_calc[OF p0 _ _ i2, where n = "P - 1" and a = "P - 12"])
    show "(2::nat) \<noteq> 0" by simp
    show "([1, 2, 3] ! 2 - [1, 2, 3] ! 0 + P) smod P = 2"
      using P by (intro smod_decompose[where k = 1]) simp_all
    show "(0 - [1, 2, 3] ! 0 + P) smod P = P - 1"
      using P by (intro smod_decompose[where k = 0]) simp_all
    show "(12 * (P - 1)) smod P = P - 12"
      using P by (intro smod_decompose[where k = 11]) simp_all
    show "((P - 12) * (H + 1)) smod P = P - 6"
      using P H by (intro smod_decompose[where k = "H - 6"]) (simp_all add: PH algebra_simps)
  qed
  have s21: "lagrange_step [1, 2, 3] 0 P 2 1 (Some (P - 6)) = Inr (Some 12)"
  proof (rule lagrange_step_calc[OF p0 _ _ i1, where n = "P - 2" and a = 12])
    show "(2::nat) \<noteq> 1" by simp
    show "([1, 2, 3] ! 2 - [1, 2, 3] ! 1 + P) smod P = 1"
      using P by (intro smod_decompose[where k = 1]) simp_all
    show "(0 - [1, 2, 3] ! 1 + P) smod P = P - 2"
      using P by (intro smod_decompose[where k = 0]) simp_all
    show "((P - 6) * (P - 2)) smod P = 12"
      using P by (intro smod_decompose[where k = "P - 8"]) (simp_all add: algebra_simps)
    show "(12 * 1) smod P = 12"
      using P by (intro smod_decompose[where k = 0]) simp_all
  qed
  have t2: "lagrange_inner [1, 2, 3] 0 P 2 [0, 1, 2] (Some 12) = Inr (Some 12)"
    by (simp only: lagrange_inner.simps s20 s21 lagrange_step_same sum.case)
  \<comment> \<open>the running total\<close>
  have a0: "bigint_rem (0 + 12) P = Inr 12"
    using P p0 by (simp add: bigint_rem_def smod_decompose[where k = 0])
  have a1: "bigint_rem (12 + (P - 21)) P = Inr (P - 9)"
    using P p0 by (simp add: bigint_rem_def smod_decompose[where k = 0])
  have a2: "bigint_rem (P - 9 + 12) P = Inr 3"
    using P p0 by (simp add: bigint_rem_def smod_decompose[where k = 1])
  have ya: "yPoints_at [4, 7, 12] 0 = Some 4" "yPoints_at [4, 7, 12] 1 = Some 7"
    "yPoints_at [4, 7, 12] 2 = Some 12"
    by (simp_all add: yPoints_at_def)
  have up: "[0..<length [1, 2, 3 :: int]] = [0, 1, 2]"
    by (simp add: upt_rec_numeral)
  have "lagrangeInterpolateBigInt [1, 2, 3] [4, 7, 12] 0 P = Inr 3"
    unfolding lagrangeInterpolateBigInt_def up
    by (simp only: lagrange_outer.simps up ya t0 t1 t2 a0 a1 a2 sum.case option.case)
  then show ?thesis by (simp only: P_def)
qed


lemma map_fst_sort_key: "map fst (sort_key fst xs) = sort (map fst xs)"
proof -
  have "mset (map fst (sort_key fst xs)) = mset (map fst xs)" by simp
  moreover have "sorted (map fst (sort_key fst xs))" by (rule sorted_sort_key)
  ultimately show ?thesis by (rule properties_for_sort[symmetric])
qed

text \<open>
  Claim C6. On a request with at least \<open>k\<close> shares (of distinct indices, \<open>k\<close> not
  negative) \<^verbatim>\<open>recoverSecret\<close> selects exactly \<open>k\<close> of them, those of the \<open>k\<close>
  smallest indices in ascending numeric order: every index left out is greater than
  every index selected, and when the selected values decode, the result is the
  interpolation through the points of exactly these indices, in this order.
\<close>

theorem select_indices_smallest:
  assumes "0 \<le> keys_k data" and "keys_k data \<le> int (length (shares data))"
    and "distinct (map fst (shares data))"
  shows "map fst (select_indices data) = take (nat (keys_k data)) (sort (map fst (shares data)))
       \<and> int (length (select_indices data)) = keys_k data
       \<and> set (select_indices data) \<subseteq> set (shares data)
       \<and> (\<forall>a\<in>set (map fst (select_indices data)).
            \<forall>b\<in>set (map fst (shares data)) - set (map fst (select_indices data)). a < b)
       \<and> (\<forall>ys. map (\<lambda>p. parseValueBigInt (share_base (snd p)) (share_value (snd p)))
                  (select_indices data) = map Inr ys
             \<longrightarrow> recoverSecret data
                 = bind_err (lagrangeInterpolateBigInt
                      (take (nat (keys_k data)) (sort (map fst (shares data)))) ys 0 PRIME)
                     (\<lambda>c. Inr (take (nat (keys_k data)) (sort (map fst (shares data))), ys, c)))
       \<and> (\<forall>xs ys c. recoverSecret data = Inr (xs, ys, c) \<longrightarrow> xs = map fst (select_indices data))"
proof -
  define k where "k = nat (keys_k data)"
  define L where "L = sort (map fst (shares data))"
  have sel: "select_indices data = take k (sort_key fst (shares data))"
    using assms(1) by (simp add: select_indices_def slice0_def k_def)
  have m: "map fst (select_indices data) = take k L"
    unfolding sel L_def map_fst_sort_key[symmetric] by (simp add: take_map)
  have kl: "k \<le> length (shares data)" using assms(1,2) by (simp add: k_def)
  have len: "int (length (select_indices data)) = keys_k data"
    using kl assms(1) by (simp add: sel k_def)
  have sub: "set (select_indices data) \<subseteq> set (shares data)"
    using set_take_subset[of k "sort_key fst (shares data)"] by (simp add: sel)
  have dL: "distinct L" and sL: "sorted L" using assms(3) by (simp_all add: L_def)
  have split: "L = take k L @ drop k L" by simp
  have strict: "sorted_wrt (<) L" using dL sL by (simp add: strict_sorted_iff)
  have lt: "\<forall>a\<in>set (take k L). \<forall>b\<in>set (drop k L). a < b"
    using strict by (subst (asm) split) (simp only: sorted_wrt_append, blast)
  have rest: "set (map fst (shares data)) - set (take k L) \<subseteq> set (drop k L)"
  proof -
    have "set (map fst (shares data)) = set L" by (simp add: L_def)
    also have "\<dots> = set (take k L) \<union> set (drop k L)" by (subst split) (simp only: set_append)
    finally show ?thesis by blast
  qed
  have run: "\<forall>ys. map (\<lambda>p. parseValueBigInt (share_base (snd p)) (share_value (snd p)))
                  (select_indices data) = map Inr ys
             \<longrightarrow> recoverSecret data
                 = bind_err (lagrangeInterpolateBigInt (take k L) ys 0 PRIME)
                     (\<lambda>c. Inr (take k L, ys, c))"
  proof (intro allI impI)
    fix ys
    assume "map (\<lambda>p. parseValueBigInt (share_base (snd p)) (share_value (snd p)))
                  (select_indices data) = map Inr ys"
    from decode_selected_all[OF this, of "[]" "[]"]
    have "decode_selected (select_indices data) [] [] = Inr (take k L, ys)"
      by (simp add: m)
    then show "recoverSecret data
                 = bind_err (lagrangeInterpolateBigInt (take k L) ys 0 PRIME)
                     (\<lambda>c. Inr (take k L, ys, c))"
      by (simp add: recoverSecret_def bind_err_def)
  qed
  have used: "\<forall>xs ys c. recoverSecret data = Inr (xs, ys, c) \<longrightarrow> xs = map fst (select_indices data)"
  proof (intro allI impI)
    fix xs ys c
    assume r: "recoverSecret data = Inr (xs, ys, c)"
    then obtain xs' ys' where d: "decode_selected (select_indices data) [] [] = Inr (xs', ys')"
      by (auto simp: recoverSecret_def bind_err_def split: sum.splits)
    with r have "xs' = xs"
      by (auto simp: recoverSecret_def bind_err_def split: sum.splits)
    with decode_selected_xPoints[OF d] show "xs = map fst (select_indices data)" by simp
  qed
  show ?thesis using m len sub lt rest run used unfolding k_def L_def by (simp only: m) blast
qed

theorem select_indices_smallest_witness:
  "map fst (select_indices sampleData) = [1, 2, 3]
   \<and> recoverSecret sampleData = Inr ([1, 2, 3], [4, 7, 12], 3)"
proof -
  have h: "0 \<le> keys_k sampleData" "keys_k sampleData \<le> int (length (shares sampleData))"
    "distinct (map fst (shares sampleData))"
    by (simp_all add: sampleData_def)
  have s: "take (nat (keys_k sampleData)) (sort (map fst (shares sampleData))) = [1, 2, 3]"
    by code_simp
  have p: "map (\<lambda>p. parseValueBigInt (share_base (snd p)) (share_value (snd p)))
             (select_indices sampleData) = map Inr [4, 7, 12]"
    by code_simp
  note t = select_indices_smallest[OF h]
  from t have "map fst (select_indices sampleData)
      = take (nat (keys_k sampleData)) (sort (map fst (shares sampleData)))"
    by blast
  then have m: "map fst (select_indices sampleData) = [1, 2, 3]" by (simp only: s)
  from t p have "recoverSecret sampleData
      = bind_err (lagrangeInterpolateBigInt
           (take (nat (keys_k sampleData)) (sort (map fst (shares sampleData)))) [4, 7, 12] 0 PRIME)
          (\<lambda>c. Inr (take (nat (keys_k sampleData)) (sort (map fst (shares sampleData))),
                    [4, 7, 12], c))"
    by blast
  then have "recoverSecret sampleData = Inr ([1, 2, 3], [4, 7, 12], 3)"
    by (simp only: s lagrange_sample_points bind_err_def sum.case)
  with m show ?thesis by simp
qed






subsection \<open>lagrangeInterpolateBigInt: the value computed\<close>

lemma in_range_prime: "in_range t p xs \<Longrightarrow> 1 < p"
  by (simp add: in_range_def is_prime_def)

lemma in_range_den:
  assumes r: "in_range t p xs" and x: "x \<in> set xs" "x' \<in> set xs" and ne: "x \<noteq> x'"
  shows "(x - x' + p) smod p = (x - x' + p) mod p"
    and "0 < (x - x' + p) mod p" and "(x - x' + p) mod p < p"
    and "\<not> p dvd (x - x')"
proof -
  have p: "1 < p" using r by (rule in_range_prime)
  have lt1: "x - x' < p" and lt2: "x' - x < p" using r x by (simp_all add: in_range_def)
  show nd: "\<not> p dvd (x - x')"
  proof
    assume "p dvd (x - x')"
    then have "p dvd \<bar>x - x'\<bar>" by simp
    moreover have "0 < \<bar>x - x'\<bar>" using ne by simp
    ultimately have "p \<le> \<bar>x - x'\<bar>" by (rule zdvd_imp_le)
    with lt1 lt2 show False by simp
  qed
  have "0 \<le> x - x' + p" using lt2 by simp
  then show "(x - x' + p) smod p = (x - x' + p) mod p" using p by (simp add: smod_nonneg)
  have "(x - x' + p) mod p \<noteq> 0"
  proof
    assume "(x - x' + p) mod p = 0"
    then have "p dvd (x - x' + p)" by (simp add: dvd_eq_mod_eq_0)
    then have "p dvd (x - x')" by simp
    with nd show False by simp
  qed
  moreover have "0 \<le> (x - x' + p) mod p" using p by simp
  ultimately show "0 < (x - x' + p) mod p" by simp
  show "(x - x' + p) mod p < p" using p by simp
qed

lemma in_range_inv:
  assumes r: "in_range t p xs" and x: "x \<in> set xs" "x' \<in> set xs" and ne: "x \<noteq> x'"
  shows "modInverse ((x - x' + p) mod p) p = Inr (inv_of p ((x - x' + p) mod p))"
    and "0 \<le> inv_of p ((x - x' + p) mod p)"
    and "((x - x') * inv_of p ((x - x' + p) mod p)) mod p = 1"
proof -
  define d where "d = (x - x' + p) mod p"
  have pr: "is_prime p" using r by (simp add: in_range_def)
  have d: "0 < d" "d < p" using in_range_den[OF r x ne] by (simp_all add: d_def)
  have p: "1 < p" using r by (rule in_range_prime)
  have "gcd d p = 1" using pr d by (rule is_prime_coprime)
  from modInverse_coprime[OF d(1) p this]
  obtain v where v: "modInverse d p = Inr v" "0 \<le> v" "v < p" "(d * v) mod p = 1" by blast
  have iv: "inv_of p d = v" using v(1) by (simp add: inv_of_def)
  show "modInverse ((x - x' + p) mod p) p = Inr (inv_of p ((x - x' + p) mod p))"
    using v(1) iv by (simp add: d_def)
  show "0 \<le> inv_of p ((x - x' + p) mod p)" using v(2) iv by (simp add: d_def)
  have "((x - x') * v) mod p = ((x - x') mod p * v) mod p" by (simp add: mod_mult_left_eq)
  also have "(x - x') mod p = d" by (simp add: d_def)
  finally show "((x - x') * inv_of p ((x - x' + p) mod p)) mod p = 1"
    using v(4) iv by (simp add: d_def)
qed

lemma in_range_num:
  assumes r: "in_range t p xs" and x: "x' \<in> set xs"
  shows "(t - x' + p) smod p = (t - x' + p) mod p"
proof -
  have "x' \<le> t + p" using r x by (simp add: in_range_def)
  then have "0 \<le> t - x' + p" by linarith
  then show ?thesis using in_range_prime[OF r] by (simp add: smod_nonneg)
qed

lemma lagrange_step_value:
  assumes r: "in_range t p xs" and i: "i < length xs" and j: "j < length xs"
    and ne: "i \<noteq> j" and tm: "0 \<le> tm"
  shows "lagrange_step xs t p i j (Some tm)
           = Inr (Some ((tm * lagrange_factor t p (xs ! i) (xs ! j)) mod p))"
proof -
  have p: "1 < p" using r by (rule in_range_prime)
  have xi: "xs ! i \<in> set xs" and xj: "xs ! j \<in> set xs" using i j by simp_all
  have d: "distinct xs" using r by (simp add: in_range_def)
  have xne: "xs ! i \<noteq> xs ! j" using d i j ne by (simp add: nth_eq_iff_index_eq)
  define num where "num = (t - xs ! j + p) mod p"
  define den where "den = (xs ! i - xs ! j + p) mod p"
  define v where "v = inv_of p den"
  have n0: "0 \<le> num" using p by (simp add: num_def)
  have v0: "0 \<le> v" using in_range_inv(2)[OF r xi xj xne] by (simp add: v_def den_def)
  have e1: "lagrange_num xs t p j = Inr num"
    using p in_range_num[OF r xj] by (simp add: lagrange_num_def bigint_rem_def num_def)
  have e2: "lagrange_den xs p i j = Inr den"
    using p in_range_den(1)[OF r xi xj xne] by (simp add: lagrange_den_def bigint_rem_def den_def)
  have e3: "modInverse den p = Inr v"
    using in_range_inv(1)[OF r xi xj xne] by (simp add: v_def den_def)
  have t1: "0 \<le> tm * num" using tm n0 by simp
  have e4: "bigint_rem (tm * num) p = Inr ((tm * num) mod p)"
    using p t1 by (simp add: bigint_rem_def smod_nonneg)
  have t2: "0 \<le> (tm * num) mod p * v" using p v0 by simp
  have e5: "bigint_rem ((tm * num) mod p * v) p = Inr (((tm * num) mod p * v) mod p)"
    using p t2 by (simp add: bigint_rem_def smod_nonneg)
  have "((tm * num) mod p * v) mod p = (tm * (num * v)) mod p"
    by (simp add: mod_mult_left_eq mult.assoc)
  then have e6: "((tm * num) mod p * v) mod p = (tm * lagrange_factor t p (xs ! i) (xs ! j)) mod p"
    by (simp add: lagrange_factor_def num_def v_def den_def)
  show ?thesis
    using ne by (simp add: lagrange_step_def bind_err_def e1 e2 e3 e4 e5 e6)
qed

lemma lagrange_inner_value:
  assumes r: "in_range t p xs" and i: "i < length xs"
  shows "\<forall>j\<in>set js. j < length xs \<Longrightarrow> 0 \<le> tm \<Longrightarrow>
     \<exists>v. lagrange_inner xs t p i js (Some tm) = Inr (Some v) \<and> 0 \<le> v
       \<and> v mod p = (tm * (\<Prod>j\<leftarrow>filter (\<lambda>j. j \<noteq> i) js.
                          lagrange_factor t p (xs ! i) (xs ! j))) mod p"
proof (induction js arbitrary: tm)
  case Nil
  then show ?case by simp
next
  case (Cons j js)
  have p: "1 < p" using r by (rule in_range_prime)
  show ?case
  proof (cases "i = j")
    case True
    then have ji: "j = i" by simp
    have s: "lagrange_step xs t p i i (Some tm) = Inr (Some tm)"
      by (simp add: lagrange_step_def)
    from Cons.IH[of tm] Cons.prems obtain v where
      v: "lagrange_inner xs t p i js (Some tm) = Inr (Some v)" "0 \<le> v"
         "v mod p = (tm * (\<Prod>j\<leftarrow>filter (\<lambda>j. j \<noteq> i) js.
                          lagrange_factor t p (xs ! i) (xs ! j))) mod p"
      by auto
    show ?thesis unfolding ji using v by (simp add: s)
  next
    case False
    define f where "f = lagrange_factor t p (xs ! i) (xs ! j)"
    define tm' where "tm' = (tm * f) mod p"
    have j: "j < length xs" using Cons.prems by simp
    have s: "lagrange_step xs t p i j (Some tm) = Inr (Some tm')"
      using lagrange_step_value[OF r i j False Cons.prems(2)] by (simp add: tm'_def f_def)
    have tm'0: "0 \<le> tm'" using p by (simp add: tm'_def)
    from Cons.IH[of tm'] Cons.prems tm'0 obtain v where
      v: "lagrange_inner xs t p i js (Some tm') = Inr (Some v)" "0 \<le> v"
         "v mod p = (tm' * (\<Prod>j\<leftarrow>filter (\<lambda>j. j \<noteq> i) js.
                          lagrange_factor t p (xs ! i) (xs ! j))) mod p"
      by auto
    define R where "R = (\<Prod>j\<leftarrow>filter (\<lambda>j. j \<noteq> i) js. lagrange_factor t p (xs ! i) (xs ! j))"
    have "(tm' * R) mod p = (tm * f * R) mod p"
      by (simp add: tm'_def mod_mult_left_eq)
    then have "v mod p = (tm * (f * R)) mod p"
      using v(3) by (simp add: R_def mult.assoc)
    then show ?thesis using v(1,2) False by (simp add: s f_def R_def)
  qed
qed

lemma lagrange_outer_value:
  assumes r: "in_range t p xs" and l: "length ys = length xs" and y: "\<forall>y\<in>set ys. 0 \<le> y"
  shows "\<forall>i\<in>set is. i < length xs \<Longrightarrow> 0 \<le> tot \<Longrightarrow> tot < p \<Longrightarrow>
     \<exists>v. lagrange_outer xs ys t p is tot = Inr v \<and> 0 \<le> v \<and> v < p
       \<and> v mod p = (tot + (\<Sum>i\<leftarrow>is. lagrange_index_term t p xs ys i)) mod p"
proof (induction "is" arbitrary: tot)
  case Nil
  then show ?case by simp
next
  case (Cons i "is")
  have p: "1 < p" using r by (rule in_range_prime)
  have i: "i < length xs" using Cons.prems by simp
  have yi: "0 \<le> ys ! i" using y i l by simp
  have ya: "yPoints_at ys i = Some (ys ! i)" using i l by (simp add: yPoints_at_def)
  from lagrange_inner_value[OF r i, of "[0..<length xs]" "ys ! i"] yi
  obtain w where w: "lagrange_inner xs t p i [0..<length xs] (Some (ys ! i)) = Inr (Some w)"
    "0 \<le> w" "w mod p = lagrange_index_term t p xs ys i mod p"
    by (auto simp: lagrange_index_term_def)
  define tot' where "tot' = (tot + w) mod p"
  have e: "bigint_rem (tot + w) p = Inr tot'"
    using p w(2) Cons.prems(2) by (simp add: bigint_rem_def smod_nonneg tot'_def)
  have t0: "0 \<le> tot'" "tot' < p" using p by (simp_all add: tot'_def)
  from Cons.IH[of tot'] Cons.prems t0 obtain v where
    v: "lagrange_outer xs ys t p is tot' = Inr v" "0 \<le> v" "v < p"
       "v mod p = (tot' + (\<Sum>i\<leftarrow>is. lagrange_index_term t p xs ys i)) mod p"
    by auto
  define S where "S = (\<Sum>i\<leftarrow>is. lagrange_index_term t p xs ys i)"
  define L where "L = lagrange_index_term t p xs ys i"
  have "(tot' + S) mod p = (tot + w + S) mod p"
    by (simp add: tot'_def mod_add_left_eq)
  also have "tot + w + S = tot + S + w" by simp
  also have "(tot + S + w) mod p = (tot + S + w mod p) mod p"
    by (simp add: mod_add_right_eq)
  also have "w mod p = L mod p" using w(3) by (simp add: L_def)
  also have "(tot + S + L mod p) mod p = (tot + S + L) mod p"
    by (simp add: mod_add_right_eq)
  also have "tot + S + L = tot + (L + S)" by simp
  finally have "v mod p = (tot + (lagrange_index_term t p xs ys i + S)) mod p"
    using v(4) by (simp add: S_def L_def)
  then show ?case using v(1,2,3) by (simp add: ya w(1) e S_def)
qed
lemma filter_index_nth:
  assumes d: "distinct xs" and i: "i < length xs"
  shows "map ((!) xs) (filter (\<lambda>j. j \<noteq> i) [0..<length xs]) = filter (\<lambda>x'. x' \<noteq> xs ! i) xs"
proof -
  have "filter (\<lambda>x'. x' \<noteq> xs ! i) xs = filter (\<lambda>x'. x' \<noteq> xs ! i) (map ((!) xs) [0..<length xs])"
    by (simp add: map_nth)
  also have "\<dots> = map ((!) xs) (filter ((\<lambda>x'. x' \<noteq> xs ! i) \<circ> (!) xs) [0..<length xs])"
    by (simp only: filter_map)
  also have "filter ((\<lambda>x'. x' \<noteq> xs ! i) \<circ> (!) xs) [0..<length xs]
           = filter (\<lambda>j. j \<noteq> i) [0..<length xs]"
    using d i by (intro filter_cong) (simp_all add: nth_eq_iff_index_eq)
  finally show ?thesis by simp
qed

lemma lagrange_sum_index:
  assumes d: "distinct xs" and l: "length ys = length xs"
  shows "lagrange_sum g xs (zip xs ys)
       = (\<Sum>i\<leftarrow>[0..<length xs]. ys ! i *
            (\<Prod>j\<leftarrow>filter (\<lambda>j. j \<noteq> i) [0..<length xs]. g (xs ! i) (xs ! j)))"
proof -
  define F where "F = (\<lambda>x y. y * (\<Prod>x'\<leftarrow>filter (\<lambda>x'. x' \<noteq> x) xs. g x x'))"
  have z: "zip xs ys = map (\<lambda>i. (xs ! i, ys ! i)) [0..<length xs]"
    using l by (intro nth_equalityI) simp_all
  have "lagrange_sum g xs (zip xs ys) = (\<Sum>(x, y)\<leftarrow>zip xs ys. F x y)"
    by (simp add: lagrange_sum_def F_def)
  also have "\<dots> = (\<Sum>i\<leftarrow>[0..<length xs]. F (xs ! i) (ys ! i))"
    by (subst z) (simp add: comp_def)
  also have "\<dots> = (\<Sum>i\<leftarrow>[0..<length xs]. ys ! i *
            (\<Prod>j\<leftarrow>filter (\<lambda>j. j \<noteq> i) [0..<length xs]. g (xs ! i) (xs ! j)))"
  proof (rule arg_cong[where f = sum_list], rule map_cong[OF refl])
    fix i assume "i \<in> set [0..<length xs]"
    then have i: "i < length xs" by simp
    have "map (g (xs ! i)) (filter (\<lambda>x'. x' \<noteq> xs ! i) xs)
        = map (\<lambda>j. g (xs ! i) (xs ! j)) (filter (\<lambda>j. j \<noteq> i) [0..<length xs])"
      by (simp add: filter_index_nth[OF d i, symmetric] comp_def)
    then show "F (xs ! i) (ys ! i) = ys ! i *
            (\<Prod>j\<leftarrow>filter (\<lambda>j. j \<noteq> i) [0..<length xs]. g (xs ! i) (xs ! j))"
      by (simp add: F_def)
  qed
  finally show ?thesis .
qed

lemma lagrange_closed_form:
  assumes r: "in_range t p xs" and l: "length ys = length xs" and y: "\<forall>y\<in>set ys. 0 \<le> y"
  shows "lagrangeInterpolateBigInt xs ys t p
       = Inr (lagrange_sum (lagrange_factor t p) xs (zip xs ys) mod p)"
proof -
  have p: "1 < p" using r by (rule in_range_prime)
  have d: "distinct xs" using r by (simp add: in_range_def)
  from lagrange_outer_value[OF r l y, of "[0..<length xs]" 0] p
  obtain v where v: "lagrange_outer xs ys t p [0..<length xs] 0 = Inr v" "0 \<le> v" "v < p"
    "v mod p = (\<Sum>i\<leftarrow>[0..<length xs]. lagrange_index_term t p xs ys i) mod p"
    by auto
  have "v mod p = v" using v(2,3) by simp
  moreover have "(\<Sum>i\<leftarrow>[0..<length xs]. lagrange_index_term t p xs ys i)
      = lagrange_sum (lagrange_factor t p) xs (zip xs ys)"
    by (simp add: lagrange_sum_index[OF d l] lagrange_index_term_def)
  ultimately show ?thesis using v(1,4) by (simp add: lagrangeInterpolateBigInt_def)
qed

subsection \<open>Order of the points\<close>

lemma lagrange_sum_mset:
  assumes "mset ps' = mset ps"
  shows "lagrange_sum g (map fst ps') ps' = lagrange_sum g (map fst ps) ps"
proof -
  have xs: "mset (map fst ps') = mset (map fst ps)" using assms by simp
  have inner: "(\<Prod>x'\<leftarrow>filter (\<lambda>x'. x' \<noteq> x) (map fst ps'). g x x')
      = (\<Prod>x'\<leftarrow>filter (\<lambda>x'. x' \<noteq> x) (map fst ps). g x x')" for x
  proof -
    have "mset (map (g x) (filter (\<lambda>x'. x' \<noteq> x) (map fst ps')))
        = mset (map (g x) (filter (\<lambda>x'. x' \<noteq> x) (map fst ps)))"
      using xs by (simp only: mset_map mset_filter)
    then have "prod_mset (mset (map (g x) (filter (\<lambda>x'. x' \<noteq> x) (map fst ps'))))
        = prod_mset (mset (map (g x) (filter (\<lambda>x'. x' \<noteq> x) (map fst ps))))"
      by simp
    then show ?thesis by (simp only: prod_mset_prod_list)
  qed
  define F where "F = (\<lambda>(x, y). y * (\<Prod>x'\<leftarrow>filter (\<lambda>x'. x' \<noteq> x) (map fst ps). g x x'))"
  have "lagrange_sum g (map fst ps') ps' = sum_list (map F ps')"
    by (simp add: lagrange_sum_def F_def inner)
  also have "\<dots> = sum_mset (mset (map F ps'))" by (simp only: sum_mset_sum_list)
  also have "mset (map F ps') = mset (map F ps)" using assms by simp
  also have "sum_mset (mset (map F ps)) = sum_list (map F ps)" by (simp only: sum_mset_sum_list)
  also have "\<dots> = lagrange_sum g (map fst ps) ps" by (simp add: lagrange_sum_def F_def)
  finally show ?thesis .
qed

lemma in_range_mset:
  assumes "in_range t p xs" and "mset xs' = mset xs"
  shows "in_range t p xs'"
proof -
  have "set xs' = set xs" using assms(2) by (rule mset_eq_setD)
  moreover have "distinct xs' = distinct xs" using assms(2) by (rule mset_eq_imp_distinct_iff)
  ultimately show ?thesis using assms(1) by (simp add: in_range_def)
qed

lemma lagrange_permutation:
  assumes r: "in_range t p (map fst ps)" and y: "\<forall>y\<in>set (map snd ps). 0 \<le> y"
    and m: "mset ps' = mset ps"
  shows "lagrangeInterpolateBigInt (map fst ps') (map snd ps') t p
       = lagrangeInterpolateBigInt (map fst ps) (map snd ps) t p"
proof -
  have r': "in_range t p (map fst ps')" using r m by (intro in_range_mset[OF r]) simp
  have "set ps' = set ps" using m by (rule mset_eq_setD)
  then have y': "\<forall>y\<in>set (map snd ps'). 0 \<le> y" using y by simp
  have z: "zip (map fst qs) (map snd qs) = qs" for qs :: "(int \<times> int) list"
    by (simp add: zip_map_fst_snd)
  show ?thesis
    using lagrange_closed_form[OF r _ y, simplified] lagrange_closed_form[OF r' _ y', simplified]
    by (simp add: z lagrange_sum_mset[OF m])
qed

subsection \<open>Division by zero\<close>

lemma lagrange_step_no_division_by_zero:
  assumes r: "in_range t' p xs" and i: "i < length xs" and j: "j < length xs"
  shows "lagrange_step xs t p i j term \<noteq> Inl DivisionByZero"
proof (cases "i = j")
  case True
  then show ?thesis by (simp add: lagrange_step_def)
next
  case False
  have p: "p \<noteq> 0" using in_range_prime[OF r] by simp
  have xi: "xs ! i \<in> set xs" and xj: "xs ! j \<in> set xs" using i j by simp_all
  have d: "distinct xs" using r by (simp add: in_range_def)
  have xne: "xs ! i \<noteq> xs ! j" using d i j False by (simp add: nth_eq_iff_index_eq)
  have e: "modInverse ((xs ! i - xs ! j + p) smod p) p
         = Inr (inv_of p ((xs ! i - xs ! j + p) mod p))"
    using in_range_inv(1)[OF r xi xj xne] in_range_den(1)[OF r xi xj xne] by simp
  show ?thesis
    using False p e
    by (simp add: lagrange_step_def lagrange_num_def lagrange_den_def bigint_rem_def
        bind_err_def split: option.split)
qed

lemma lagrange_inner_no_division_by_zero:
  assumes r: "in_range t' p xs" and i: "i < length xs"
  shows "\<forall>j\<in>set js. j < length xs \<Longrightarrow> lagrange_inner xs t p i js term \<noteq> Inl DivisionByZero"
proof (induction js arbitrary: "term")
  case Nil
  show ?case by simp
next
  case (Cons j js)
  have "lagrange_step xs t p i j term \<noteq> Inl DivisionByZero"
    using Cons.prems by (intro lagrange_step_no_division_by_zero[OF r i]) simp
  then show ?case using Cons by (auto split: sum.split)
qed

lemma lagrange_outer_no_division_by_zero:
  assumes r: "in_range t' p xs"
  shows "\<forall>i\<in>set is. i < length xs \<Longrightarrow> lagrange_outer xs ys t p is tot \<noteq> Inl DivisionByZero"
proof (induction "is" arbitrary: tot)
  case Nil
  show ?case by simp
next
  case (Cons i "is")
  have i: "i < length xs" using Cons.prems by simp
  have p: "p \<noteq> 0" using in_range_prime[OF r] by simp
  have "lagrange_inner xs t p i [0..<length xs] (yPoints_at ys i) \<noteq> Inl DivisionByZero"
    by (intro lagrange_inner_no_division_by_zero[OF r i]) simp
  then show ?case using Cons p
    by (auto simp: bigint_rem_def split: sum.split option.split)
qed

lemma in_range_exists:
  assumes "is_prime p" and "distinct xs" and "\<forall>x\<in>set xs. \<forall>x'\<in>set xs. x - x' < p"
  shows "\<exists>t. in_range t p xs"
proof -
  have p: "0 < p" using assms(1) by (simp add: is_prime_def)
  have "x \<le> Max (insert 0 (set xs)) + p" if "x \<in> set xs" for x
  proof -
    have "x \<le> Max (insert 0 (set xs))" using that by simp
    with p show ?thesis by linarith
  qed
  then show ?thesis using assms by (auto simp: in_range_def)
qed

text \<open>
  Claim C9 (amended). For a prime modulus and pairwise distinct \<open>x\<close> values that
  differ by less than the modulus, every denominator handed to \<^verbatim>\<open>modInverse\<close> lies
  strictly between \<open>0\<close> and the modulus, \<^verbatim>\<open>modInverse\<close> returns for it, and the
  interpolation never fails with a division by zero.
\<close>

theorem lagrange_denominators_invertible:
  assumes "is_prime p" and "distinct xs" and "\<forall>x\<in>set xs. \<forall>x'\<in>set xs. x - x' < p"
  shows "(\<forall>i<length xs. \<forall>j<length xs. i \<noteq> j \<longrightarrow>
            (\<exists>a r. lagrange_den xs p i j = Inr a \<and> 0 < a \<and> a < p \<and> modInverse a p = Inr r))
       \<and> lagrangeInterpolateBigInt xs ys t p \<noteq> Inl DivisionByZero"
proof -
  from in_range_exists[OF assms] obtain t' where r: "in_range t' p xs" by blast
  have p: "p \<noteq> 0" using in_range_prime[OF r] by simp
  have "\<exists>a r. lagrange_den xs p i j = Inr a \<and> 0 < a \<and> a < p \<and> modInverse a p = Inr r"
    if i: "i < length xs" and j: "j < length xs" and ne: "i \<noteq> j" for i j
  proof -
    have xi: "xs ! i \<in> set xs" and xj: "xs ! j \<in> set xs" using i j by simp_all
    have xne: "xs ! i \<noteq> xs ! j" using assms(2) i j ne by (simp add: nth_eq_iff_index_eq)
    have "lagrange_den xs p i j = Inr ((xs ! i - xs ! j + p) mod p)"
      using p in_range_den(1)[OF r xi xj xne] by (simp add: lagrange_den_def bigint_rem_def)
    with in_range_den(2,3)[OF r xi xj xne] in_range_inv(1)[OF r xi xj xne]
    show ?thesis by blast
  qed
  moreover have "lagrangeInterpolateBigInt xs ys t p \<noteq> Inl DivisionByZero"
    unfolding lagrangeInterpolateBigInt_def
    by (intro lagrange_outer_no_division_by_zero[OF r]) simp
  ultimately show ?thesis by blast
qed

theorem lagrange_denominators_invertible_witness:
  "lagrange_den [1, 2, 4] 7 0 2 = Inr 4 \<and> modInverse 4 7 = Inr 2
   \<and> lagrangeInterpolateBigInt [1, 2, 4] [3, 5, 2] 0 7 = Inr 1"
proof -
  have h: "is_prime 7" "distinct [1, 2, 4 :: int]"
    "\<forall>x\<in>set [1, 2, 4 :: int]. \<forall>x'\<in>set [1, 2, 4]. x - x' < 7"
    by (code_simp, simp, simp)
  have e: "lagrange_den [1, 2, 4] 7 0 2 = Inr 4" "modInverse 4 7 = Inr 2"
    "lagrangeInterpolateBigInt [1, 2, 4] [3, 5, 2] 0 7 = Inr 1"
    by code_simp+
  from lagrange_denominators_invertible[OF h, of "[3, 5, 2]" 0] e show ?thesis by simp
qed

text \<open>
  Claim C9 as stated, for distinct \<open>x\<close> values alone, fails: without the bound on
  the differences the denominator can vanish: for the distinct
  values \<open>1\<close> and \<open>4\<close> and the prime modulus \<open>3\<close> the denominator is \<open>0\<close>.
\<close>

theorem lagrange_denominator_zero:
  "is_prime 3 \<and> distinct [1, 4 :: int] \<and> lagrange_den [1, 4] 3 0 1 = Inr 0"
  by code_simp

subsection \<open>Polynomial functions and their roots modulo a prime\<close>

lemma poly_add_eval: "poly_eval (poly_add as bs) u = poly_eval as u + poly_eval bs u"
  by (induction as bs rule: poly_add.induct) (simp_all add: algebra_simps)

lemma poly_add_length: "length (poly_add as bs) = max (length as) (length bs)"
  by (induction as bs rule: poly_add.induct) simp_all

lemma poly_eval_smult: "poly_eval (map ((*) c) cs) u = c * poly_eval cs u"
  by (induction cs) (simp_all add: algebra_simps)

lemma polyfun_zero: "polyfun n (\<lambda>u. 0)"
  unfolding polyfun_def by (rule exI[of _ "[]"]) simp

lemma polyfun_const: "0 < n \<Longrightarrow> polyfun n (\<lambda>u. c)"
  unfolding polyfun_def by (rule exI[of _ "[c]"]) simp

lemma polyfun_poly: "length cs \<le> n \<Longrightarrow> polyfun n (poly_eval cs)"
  unfolding polyfun_def by blast

lemma polyfun_mono: "polyfun n g \<Longrightarrow> n \<le> m \<Longrightarrow> polyfun m g"
  unfolding polyfun_def by (meson le_trans)

lemma polyfun_add:
  assumes "polyfun n g" and "polyfun n h"
  shows "polyfun n (\<lambda>u. g u + h u)"
proof -
  from assms obtain as bs where
    a: "length as \<le> n" "\<forall>u. g u = poly_eval as u" and
    b: "length bs \<le> n" "\<forall>u. h u = poly_eval bs u"
    unfolding polyfun_def by blast
  have "length (poly_add as bs) \<le> n" using a(1) b(1) by (simp add: poly_add_length)
  moreover have "\<forall>u. g u + h u = poly_eval (poly_add as bs) u"
    using a(2) b(2) by (simp add: poly_add_eval)
  ultimately show ?thesis unfolding polyfun_def by blast
qed

lemma polyfun_smult:
  assumes "polyfun n g"
  shows "polyfun n (\<lambda>u. c * g u)"
proof -
  from assms obtain cs where c: "length cs \<le> n" "\<forall>u. g u = poly_eval cs u"
    unfolding polyfun_def by blast
  have "length (map ((*) c) cs) \<le> n" using c(1) by simp
  moreover have "\<forall>u. c * g u = poly_eval (map ((*) c) cs) u"
    using c(2) by (simp add: poly_eval_smult)
  ultimately show ?thesis unfolding polyfun_def by blast
qed

lemma polyfun_shift:
  assumes "polyfun n g"
  shows "polyfun (Suc n) (\<lambda>u. u * g u)"
proof -
  from assms obtain cs where c: "length cs \<le> n" "\<forall>u. g u = poly_eval cs u"
    unfolding polyfun_def by blast
  have "length (0 # cs) \<le> Suc n" using c(1) by simp
  moreover have "\<forall>u. u * g u = poly_eval (0 # cs) u" using c(2) by simp
  ultimately show ?thesis unfolding polyfun_def by blast
qed

lemma polyfun_linear:
  assumes "polyfun n g"
  shows "polyfun (Suc n) (\<lambda>u. ((u - a) * c) * g u)"
proof -
  have 1: "polyfun (Suc n) (\<lambda>u. c * (u * g u))"
    by (intro polyfun_smult polyfun_shift assms)
  have 2: "polyfun (Suc n) (\<lambda>u. (- (a * c)) * g u)"
    by (intro polyfun_smult polyfun_mono[OF assms]) simp
  have "(\<lambda>u. ((u - a) * c) * g u) = (\<lambda>u. c * (u * g u) + (- (a * c)) * g u)"
    by (simp add: fun_eq_iff algebra_simps)
  with polyfun_add[OF 1 2] show ?thesis by simp
qed

lemma polyfun_prod_list:
  "polyfun (Suc (length zs)) (\<lambda>u. \<Prod>z\<leftarrow>zs. (u - z) * c z)"
proof (induction zs)
  case Nil
  show ?case by (simp add: polyfun_const)
next
  case (Cons z zs)
  from polyfun_linear[OF Cons, of z "c z"] show ?case by simp
qed

lemma polyfun_sum_list:
  "\<forall>x\<in>set xs. polyfun n (f x) \<Longrightarrow> polyfun n (\<lambda>u. \<Sum>x\<leftarrow>xs. f x u)"
proof (induction xs)
  case Nil
  show ?case by (simp add: polyfun_zero)
next
  case (Cons x xs)
  then have "polyfun n (f x)" and "polyfun n (\<lambda>u. \<Sum>x\<leftarrow>xs. f x u)" by simp_all
  from polyfun_add[OF this] show ?case by simp
qed

lemma polyfun_diff:
  assumes "polyfun n g" and "polyfun n h"
  shows "polyfun n (\<lambda>u. g u - h u)"
proof -
  have "polyfun n (\<lambda>u. (- 1) * h u)" by (intro polyfun_smult assms)
  from polyfun_add[OF assms(1) this] show ?thesis by simp
qed

lemma poly_factor:
  "cs \<noteq> [] \<Longrightarrow>
     \<exists>qs. length qs = length cs - 1
        \<and> (\<forall>u. poly_eval cs u = poly_eval cs a + (u - a) * poly_eval qs u)"
proof (induction cs)
  case Nil
  then show ?case by simp
next
  case (Cons c cs)
  show ?case
  proof (cases "cs = []")
    case True
    then show ?thesis by (intro exI[of _ "[]"]) simp
  next
    case False
    from Cons.IH[OF False] obtain qs where
      q: "length qs = length cs - 1"
         "\<forall>u. poly_eval cs u = poly_eval cs a + (u - a) * poly_eval qs u"
      by blast
    define R where "R = poly_eval cs a"
    have "length (R # qs) = length (c # cs) - 1" using q(1) False by (cases cs) simp_all
    moreover have "poly_eval (c # cs) u = poly_eval (c # cs) a + (u - a) * poly_eval (R # qs) u" for u
    proof -
      from q(2) have e: "poly_eval cs u = R + (u - a) * poly_eval qs u"
        unfolding R_def by blast
      have "poly_eval (c # cs) u = c + u * (R + (u - a) * poly_eval qs u)"
        by (simp only: poly_eval.simps e)
      also have "\<dots> = (c + a * R) + (u - a) * (R + u * poly_eval qs u)"
        by (simp add: algebra_simps)
      finally show ?thesis by (simp add: R_def)
    qed
    ultimately show ?thesis by blast
  qed
qed

lemma poly_roots_mod:
  assumes pr: "is_prime p"
  shows "length cs \<le> length rs \<Longrightarrow> distinct rs
     \<Longrightarrow> \<forall>r\<in>set rs. \<forall>r'\<in>set rs. r \<noteq> r' \<longrightarrow> \<not> p dvd (r - r')
     \<Longrightarrow> \<forall>r\<in>set rs. p dvd poly_eval cs r
     \<Longrightarrow> p dvd poly_eval cs u"
proof (induction rs arbitrary: cs u)
  case Nil
  then show ?case by simp
next
  case (Cons a rs)
  show ?case
  proof (cases "cs = []")
    case True
    then show ?thesis by simp
  next
    case False
    from poly_factor[OF False, of a] obtain qs where
      q: "length qs = length cs - 1"
         "\<forall>u. poly_eval cs u = poly_eval cs a + (u - a) * poly_eval qs u"
      by blast
    have pa: "p dvd poly_eval cs a" using Cons.prems(4) by simp
    have len: "length qs \<le> length rs" using q(1) Cons.prems(1) by simp
    have d: "distinct rs" using Cons.prems(2) by simp
    have inc: "\<forall>r\<in>set rs. \<forall>r'\<in>set rs. r \<noteq> r' \<longrightarrow> \<not> p dvd (r - r')"
      using Cons.prems(3) by simp
    have roots: "\<forall>r\<in>set rs. p dvd poly_eval qs r"
    proof
      fix r assume r: "r \<in> set rs"
      then have ne: "r \<noteq> a" using Cons.prems(2) by auto
      from q(2) have e: "poly_eval cs r = poly_eval cs a + (r - a) * poly_eval qs r"
        by blast
      have "p dvd poly_eval cs r" using Cons.prems(4) r by simp
      then have "p dvd poly_eval cs a + (r - a) * poly_eval qs r" by (simp only: e[symmetric])
      with pa have "p dvd (r - a) * poly_eval qs r" by (simp add: dvd_add_right_iff)
      then have "p dvd (r - a) \<or> p dvd poly_eval qs r" using pr by (intro is_prime_dvd_mult)
      moreover have "\<not> p dvd (r - a)" using Cons.prems(3) r ne by simp
      ultimately show "p dvd poly_eval qs r" by simp
    qed
    have "p dvd poly_eval qs u" by (rule Cons.IH[OF len d inc roots])
    then have "p dvd (u - a) * poly_eval qs u" by simp
    with pa have "p dvd poly_eval cs a + (u - a) * poly_eval qs u" by (rule dvd_add)
    moreover from q(2) have "poly_eval cs u = poly_eval cs a + (u - a) * poly_eval qs u"
      by blast
    ultimately show ?thesis by (simp only:)
  qed
qed

lemma polyfun_roots_mod:
  assumes "is_prime p" and "polyfun (length rs) g" and "distinct rs"
    and "\<forall>r\<in>set rs. \<forall>r'\<in>set rs. r \<noteq> r' \<longrightarrow> \<not> p dvd (r - r')"
    and "\<forall>r\<in>set rs. p dvd g r"
  shows "p dvd g u"
proof -
  from assms(2) obtain cs where c: "length cs \<le> length rs" "\<forall>u. g u = poly_eval cs u"
    unfolding polyfun_def by blast
  have "p dvd poly_eval cs u"
    using assms(5) c(2) by (intro poly_roots_mod[OF assms(1) c(1) assms(3,4)]) simp
  then show ?thesis using c(2) by simp
qed

subsection \<open>The interpolation sum is the interpolating polynomial\<close>

lemma sum_list_single:
  "distinct xs \<Longrightarrow> a \<in> set xs \<Longrightarrow> \<forall>x\<in>set xs. x \<noteq> a \<longrightarrow> f x = 0
     \<Longrightarrow> sum_list (map f xs) = (f a :: int)"
proof (induction xs)
  case Nil
  then show ?case by simp
next
  case (Cons x xs)
  show ?case
  proof (cases "x = a")
    case True
    then have "\<forall>y\<in>set xs. f y = 0" using Cons.prems by auto
    then have "sum_list (map f xs) = 0" by (induction xs) simp_all
    then show ?thesis using True by simp
  next
    case False
    then have "f x = 0" using Cons.prems by simp
    moreover have "sum_list (map f xs) = f a" using Cons False by auto
    ultimately show ?thesis by simp
  qed
qed

lemma prod_list_mod_one:
  "1 < p \<Longrightarrow> \<forall>z\<in>set zs. f z mod p = 1 \<Longrightarrow> (\<Prod>z\<leftarrow>zs. f z) mod p = (1 :: int)"
proof (induction zs)
  case Nil
  then show ?case by simp
next
  case (Cons z zs)
  have "(f z * (\<Prod>z\<leftarrow>zs. f z)) mod p = (f z mod p * ((\<Prod>z\<leftarrow>zs. f z) mod p)) mod p"
    by (simp add: mod_mult_eq)
  then show ?case using Cons by simp
qed

lemma prod_list_mod_cong:
  "\<forall>z\<in>set zs. f z mod p = g z mod p
     \<Longrightarrow> (\<Prod>z\<leftarrow>zs. f z) mod p = (\<Prod>z\<leftarrow>zs. g z) mod (p :: int)"
proof (induction zs)
  case Nil
  show ?case by simp
next
  case (Cons z zs)
  then have "f z mod p = g z mod p" and "(\<Prod>z\<leftarrow>zs. f z) mod p = (\<Prod>z\<leftarrow>zs. g z) mod p"
    by simp_all
  then have "(f z * (\<Prod>z\<leftarrow>zs. f z)) mod p = (g z * (\<Prod>z\<leftarrow>zs. g z)) mod p"
    by (rule mod_mult_cong)
  then show ?case by simp
qed

lemma sum_list_mod_cong:
  "\<forall>z\<in>set zs. f z mod p = g z mod p
     \<Longrightarrow> (\<Sum>z\<leftarrow>zs. f z) mod p = (\<Sum>z\<leftarrow>zs. g z) mod (p :: int)"
proof (induction zs)
  case Nil
  show ?case by simp
next
  case (Cons z zs)
  then have "f z mod p = g z mod p" and "(\<Sum>z\<leftarrow>zs. f z) mod p = (\<Sum>z\<leftarrow>zs. g z) mod p"
    by simp_all
  then have "(f z + (\<Sum>z\<leftarrow>zs. f z)) mod p = (g z + (\<Sum>z\<leftarrow>zs. g z)) mod p"
    by (rule mod_add_cong)
  then show ?case by simp
qed

lemma basis_sum_unfold:
  "lagrange_sum (basis_factor u p) xs (zip xs (map P xs))
     = (\<Sum>x\<leftarrow>xs. P x * (\<Prod>x'\<leftarrow>filter (\<lambda>x'. x' \<noteq> x) xs. (u - x') * inv_of p ((x - x' + p) mod p)))"
proof -
  have "zip xs (map P xs) = map (\<lambda>x. (x, P x)) xs"
    by (induction xs) simp_all
  then show ?thesis by (simp add: lagrange_sum_def basis_factor_def comp_def)
qed

lemma basis_sum_polyfun:
  "polyfun (length xs) (\<lambda>u. lagrange_sum (basis_factor u p) xs (zip xs (map P xs)))"
proof -
  have "polyfun (length xs)
      (\<lambda>u. P x * (\<Prod>x'\<leftarrow>filter (\<lambda>x'. x' \<noteq> x) xs. (u - x') * inv_of p ((x - x' + p) mod p)))"
    if x: "x \<in> set xs" for x
  proof -
    define zs where "zs = filter (\<lambda>x'. x' \<noteq> x) xs"
    have "length zs < length xs" unfolding zs_def using x by (intro length_filter_less) simp_all
    then have "Suc (length zs) \<le> length xs" by simp
    with polyfun_prod_list[of zs "\<lambda>x'. inv_of p ((x - x' + p) mod p)"]
    have "polyfun (length xs) (\<lambda>u. \<Prod>x'\<leftarrow>zs. (u - x') * inv_of p ((x - x' + p) mod p))"
      by (rule polyfun_mono)
    then show ?thesis unfolding zs_def by (rule polyfun_smult)
  qed
  then have "polyfun (length xs) (\<lambda>u. \<Sum>x\<leftarrow>xs.
       P x * (\<Prod>x'\<leftarrow>filter (\<lambda>x'. x' \<noteq> x) xs. (u - x') * inv_of p ((x - x' + p) mod p)))"
    by (intro polyfun_sum_list) simp
  then show ?thesis by (simp add: basis_sum_unfold)
qed

lemma basis_sum_at_point:
  assumes r: "in_range t p xs" and a: "a \<in> set xs"
  shows "lagrange_sum (basis_factor a p) xs (zip xs (map P xs)) mod p = P a mod p"
proof -
  have p: "1 < p" using r by (rule in_range_prime)
  have d: "distinct xs" using r by (simp add: in_range_def)
  define f where "f = (\<lambda>x. P x *
     (\<Prod>x'\<leftarrow>filter (\<lambda>x'. x' \<noteq> x) xs. (a - x') * inv_of p ((x - x' + p) mod p)))"
  have zero: "f x = 0" if x: "x \<in> set xs" and ne: "x \<noteq> a" for x
  proof -
    have "a \<in> set (filter (\<lambda>x'. x' \<noteq> x) xs)" using a ne by simp
    then have "(0::int) \<in> set (map (\<lambda>x'. (a - x') * inv_of p ((x - x' + p) mod p))
                          (filter (\<lambda>x'. x' \<noteq> x) xs))"
      by (force simp: image_iff)
    then have "(\<Prod>x'\<leftarrow>filter (\<lambda>x'. x' \<noteq> x) xs. (a - x') * inv_of p ((x - x' + p) mod p)) = 0"
      by (simp only: prod_list_zero_iff)
    then show ?thesis by (simp add: f_def)
  qed
  have one: "(\<Prod>x'\<leftarrow>filter (\<lambda>x'. x' \<noteq> a) xs. (a - x') * inv_of p ((a - x' + p) mod p)) mod p = 1"
  proof (rule prod_list_mod_one[OF p], rule ballI)
    fix x' assume "x' \<in> set (filter (\<lambda>x'. x' \<noteq> a) xs)"
    then have x': "x' \<in> set xs" and ne: "a \<noteq> x'" by auto
    show "((a - x') * inv_of p ((a - x' + p) mod p)) mod p = 1"
      by (rule in_range_inv(3)[OF r a x' ne])
  qed
  have "lagrange_sum (basis_factor a p) xs (zip xs (map P xs)) = sum_list (map f xs)"
    by (simp add: basis_sum_unfold f_def)
  also have "\<dots> = f a" using zero by (intro sum_list_single[OF d a]) simp
  finally have "lagrange_sum (basis_factor a p) xs (zip xs (map P xs)) mod p = f a mod p"
    by simp
  also have "f a mod p = (P a * ((\<Prod>x'\<leftarrow>filter (\<lambda>x'. x' \<noteq> a) xs.
        (a - x') * inv_of p ((a - x' + p) mod p)) mod p)) mod p"
    by (simp add: f_def mod_mult_right_eq)
  also have "\<dots> = P a mod p" by (simp only: one mult_1_right)
  finally show ?thesis .
qed

lemma basis_sum_interpolates:
  assumes r: "in_range t p xs" and l: "length cs \<le> length xs"
  shows "lagrange_sum (basis_factor u p) xs (zip xs (map (poly_eval cs) xs)) mod p
       = poly_eval cs u mod p"
proof -
  have pr: "is_prime p" and d: "distinct xs" using r by (simp_all add: in_range_def)
  define G where "G = (\<lambda>u. lagrange_sum (basis_factor u p) xs (zip xs (map (poly_eval cs) xs))
                           - poly_eval cs u)"
  have pf: "polyfun (length xs) G"
    unfolding G_def by (intro polyfun_diff basis_sum_polyfun polyfun_poly l)
  have inc: "\<forall>x\<in>set xs. \<forall>x'\<in>set xs. x \<noteq> x' \<longrightarrow> \<not> p dvd (x - x')"
    using in_range_den(4)[OF r] by blast
  have roots: "\<forall>a\<in>set xs. p dvd G a"
  proof
    fix a assume a: "a \<in> set xs"
    from basis_sum_at_point[OF r a, of "poly_eval cs"]
    show "p dvd G a" by (simp add: G_def mod_eq_dvd_iff)
  qed
  have "p dvd G u" by (rule polyfun_roots_mod[OF pr pf d inc roots])
  then show ?thesis by (simp add: G_def mod_eq_dvd_iff)
qed

lemma lagrange_factor_basis:
  "lagrange_factor t p x x' mod p = basis_factor t p x x' mod p"
proof -
  have "(t - x' + p) mod p = (t - x') mod p" by simp
  then show ?thesis
    by (simp add: lagrange_factor_def basis_factor_def mod_mult_left_eq)
qed

lemma lagrange_sum_cong_mod:
  assumes d: "distinct xs" and l: "length ys = length xs" and l': "length ys' = length xs"
    and y: "\<forall>i<length xs. ys ! i mod p = ys' ! i mod p"
    and g: "\<forall>x x'. g x x' mod p = g' x x' mod p"
  shows "lagrange_sum g xs (zip xs ys) mod p = lagrange_sum g' xs (zip xs ys') mod (p :: int)"
  unfolding lagrange_sum_index[OF d l] lagrange_sum_index[OF d l']
proof (rule sum_list_mod_cong, rule ballI)
  fix i assume "i \<in> set [0..<length xs]"
  then have i: "i < length xs" by simp
  have "ys ! i mod p = ys' ! i mod p" using y i by simp
  moreover have "(\<Prod>j\<leftarrow>filter (\<lambda>j. j \<noteq> i) [0..<length xs]. g (xs ! i) (xs ! j)) mod p
      = (\<Prod>j\<leftarrow>filter (\<lambda>j. j \<noteq> i) [0..<length xs]. g' (xs ! i) (xs ! j)) mod p"
    using g by (intro prod_list_mod_cong) simp
  ultimately show "(ys ! i * (\<Prod>j\<leftarrow>filter (\<lambda>j. j \<noteq> i) [0..<length xs]. g (xs ! i) (xs ! j))) mod p
      = (ys' ! i * (\<Prod>j\<leftarrow>filter (\<lambda>j. j \<noteq> i) [0..<length xs]. g' (xs ! i) (xs ! j))) mod p"
    by (rule mod_mult_cong)
qed

lemma lagrange_interpolates:
  assumes r: "in_range t p xs" and l: "length ys = length xs" and y: "\<forall>y\<in>set ys. 0 \<le> y"
    and c: "length cs \<le> length xs"
    and a: "\<forall>i<length xs. ys ! i mod p = poly_eval cs (xs ! i) mod p"
  shows "lagrangeInterpolateBigInt xs ys t p = Inr (poly_eval cs t mod p)"
proof -
  have d: "distinct xs" using r by (simp add: in_range_def)
  have "lagrange_sum (lagrange_factor t p) xs (zip xs ys) mod p
      = lagrange_sum (basis_factor t p) xs (zip xs (map (poly_eval cs) xs)) mod p"
    using a by (intro lagrange_sum_cong_mod[OF d l]) (simp_all add: lagrange_factor_basis)
  also have "\<dots> = poly_eval cs t mod p" by (rule basis_sum_interpolates[OF r c])
  finally show ?thesis by (simp add: lagrange_closed_form[OF r l y])
qed
text \<open>
  Claim C1 (amended). For a prime modulus \<open>p\<close> and \<open>k\<close> points with non-negative
  \<open>y\<close> values and pairwise distinct \<open>x\<close> values that differ by less than \<open>p\<close> and
  do not exceed \<open>p\<close> (as all values in \<open>[0, p)\<close> do), the interpolation at target
  \<open>0\<close> returns \<open>P(0) mod p\<close> for every polynomial \<open>P\<close> with at most \<open>k\<close>
  coefficients that agrees with the points modulo \<open>p\<close>; when the constant term \<open>c\<close>
  of \<open>P\<close> satisfies \<open>0 \<le> c < p\<close> the result is \<open>c\<close>.
\<close>

theorem lagrange_recovers_constant_term:
  assumes "is_prime p" and "distinct xs"
    and "\<forall>x\<in>set xs. \<forall>x'\<in>set xs. x - x' < p" and "\<forall>x\<in>set xs. x \<le> p"
    and "length ys = length xs" and "\<forall>y\<in>set ys. 0 \<le> y"
    and "length cs \<le> length xs"
    and "\<forall>i<length xs. ys ! i mod p = poly_eval cs (xs ! i) mod p"
  shows "lagrangeInterpolateBigInt xs ys 0 p = Inr (poly_eval cs 0 mod p)
       \<and> (\<forall>c cs'. cs = c # cs' \<and> 0 \<le> c \<and> c < p
             \<longrightarrow> lagrangeInterpolateBigInt xs ys 0 p = Inr c)"
proof -
  have r: "in_range 0 p xs" using assms(1-4) by (simp add: in_range_def)
  have e: "lagrangeInterpolateBigInt xs ys 0 p = Inr (poly_eval cs 0 mod p)"
    by (rule lagrange_interpolates[OF r assms(5-8)])
  moreover have "lagrangeInterpolateBigInt xs ys 0 p = Inr c"
    if "cs = c # cs'" and "0 \<le> c" and "c < p" for c cs'
    using e that by simp
  ultimately show ?thesis by blast
qed

theorem lagrange_recovers_constant_term_witness:
  "lagrangeInterpolateBigInt [1, 2, 4] [6, 6, 4] 0 7 = Inr 3"
proof -
  have h: "is_prime 7" "distinct [1, 2, 4 :: int]"
    "\<forall>x\<in>set [1, 2, 4 :: int]. \<forall>x'\<in>set [1, 2, 4]. x - x' < 7"
    "\<forall>x\<in>set [1, 2, 4 :: int]. x \<le> 7"
    "length [6, 6, 4 :: int] = length [1, 2, 4 :: int]"
    "\<forall>y\<in>set [6, 6, 4 :: int]. 0 \<le> y"
    "length [3, 1, 2 :: int] \<le> length [1, 2, 4 :: int]"
    "\<forall>i<length [1, 2, 4 :: int]. [6, 6, 4] ! i mod 7 = poly_eval [3, 1, 2] ([1, 2, 4] ! i) mod 7"
    by (code_simp, simp, simp, simp, simp, simp, simp, simp add: less_Suc_eq numeral_3_eq_3)
  from lagrange_recovers_constant_term[OF h] show ?thesis by simp
qed

text \<open>
  Claim C1 as stated, for distinct \<open>x\<close> values alone, fails: without the bounds
  on the \<open>x\<close> values the result can be wrong: for the
  polynomial \<open>1 + x\<close>, the prime modulus \<open>5\<close> and the points at \<open>1\<close> and
  \<open>7\<close> the interpolation returns \<open>-2\<close>, not the constant term \<open>1\<close>.
\<close>

theorem lagrange_out_of_range:
  "is_prime 5 \<and> distinct [1, 7 :: int]
   \<and> [poly_eval [1, 1] 1 mod 5, poly_eval [1, 1] 7 mod 5] = [2, 3]
   \<and> lagrangeInterpolateBigInt [1, 7] [2, 3] 0 5 = Inr (- 2)"
  by code_simp

text \<open>
  Claim C8 (amended). For a prime modulus \<open>p\<close> and points with non-negative \<open>y\<close>
  values and pairwise distinct \<open>x\<close> values that differ by less than \<open>p\<close> and do not
  exceed \<open>p\<close>, the interpolation at target \<open>0\<close> returns the same value on every
  permutation of the points.
\<close>

theorem lagrange_order_invariant:
  assumes "is_prime p" and "distinct (map fst ps)"
    and "\<forall>x\<in>set (map fst ps). \<forall>x'\<in>set (map fst ps). x - x' < p"
    and "\<forall>x\<in>set (map fst ps). x \<le> p"
    and "\<forall>y\<in>set (map snd ps). 0 \<le> y"
    and "mset ps' = mset ps"
  shows "lagrangeInterpolateBigInt (map fst ps') (map snd ps') 0 p
       = lagrangeInterpolateBigInt (map fst ps) (map snd ps) 0 p"
proof -
  have r: "in_range 0 p (map fst ps)" using assms(1-4) by (simp add: in_range_def)
  show ?thesis by (rule lagrange_permutation[OF r assms(5,6)])
qed

theorem lagrange_order_invariant_witness:
  "lagrangeInterpolateBigInt [4, 1, 2] [4, 6, 6] 0 7 = Inr 3
   \<and> lagrangeInterpolateBigInt [1, 2, 4] [6, 6, 4] 0 7 = Inr 3"
proof -
  have h: "is_prime 7" "distinct (map fst [(1, 6), (2, 6), (4, 4 :: int)] :: int list)"
    "\<forall>x\<in>set (map fst [(1 :: int, 6 :: int), (2, 6), (4, 4)]).
       \<forall>x'\<in>set (map fst [(1 :: int, 6 :: int), (2, 6), (4, 4)]). x - x' < 7"
    "\<forall>x\<in>set (map fst [(1 :: int, 6 :: int), (2, 6), (4, 4)]). x \<le> 7"
    "\<forall>y\<in>set (map snd [(1 :: int, 6 :: int), (2, 6), (4, 4)]). 0 \<le> y"
    "mset [(4 :: int, 4 :: int), (1, 6), (2, 6)] = mset [(1, 6), (2, 6), (4, 4)]"
    by (code_simp, simp, simp, simp, simp, simp)
  have e: "lagrangeInterpolateBigInt [1, 2, 4] [6, 6, 4] 0 7 = Inr 3" by code_simp
  from lagrange_order_invariant[OF h] e show ?thesis by simp
qed

text \<open>
  Claim C8 as stated, for distinct \<open>x\<close> values alone, fails: without the bounds
  on the \<open>x\<close> values the order of the points matters: modulo
  \<open>5\<close> the points \<open>(1, 1)\<close>, \<open>(7, 1)\<close>, \<open>(8, 3)\<close> give \<open>-4\<close> in this
  order and \<open>1\<close> in the reverse order.
\<close>

theorem lagrange_order_dependent:
  "is_prime 5 \<and> distinct [1, 7, 8 :: int]
   \<and> lagrangeInterpolateBigInt [1, 7, 8] [1, 1, 3] 0 5 = Inr (- 4)
   \<and> lagrangeInterpolateBigInt [8, 7, 1] [3, 1, 1] 0 5 = Inr 1"
  by code_simp

end
